theory Spec2Isabelle
  imports Complex_Main "HOL-Library.Word"
begin

section \<open>Conventions of the model\<close>

text \<open>
  The repository has two programs: the CUDA engine \<^verbatim>\<open>quake_cuda_cpml.cu\<close> (command line, velocity
  model, sponge mask, stencil kernel, source injection, energy reduction, main loop) and the
  Node relay \<^verbatim>\<open>server/index.js\<close> (one engine process per WebSocket session, reassembly of the
  engine's binary output into frames). Both are embedded below, function by function, with the
  names of the source.

  \<^item> A C \<^verbatim>\<open>float\<close> is modelled by a \<^typ>\<open>real\<close>. In the kernels the arithmetic is exact, so
    rounding is outside the model there. In the bound of the time step, where the value the
    engine computes is what is compared and stored, every operation rounds its exact result to
    the nearest single-precision number (\<open>round32\<close>). Overflow to infinity, NaN and the sign of
    a zero are outside the model everywhere. Where the value of a division decides a result,
    the theorems ask for a divisor other than zero (HOL gives \<open>x / 0 = 0\<close>, IEEE gives an
    infinity or NaN).
  \<^item> A C \<^verbatim>\<open>int\<close> is modelled by an \<^typ>\<open>int\<close>. Integer division and remainder truncate
    towards zero (\<open>c_div\<close>, \<open>c_rem\<close>). The product \<^verbatim>\<open>nx * ny\<close> of \<^verbatim>\<open>fillCField\<close>, which decides
    whether \<^verbatim>\<open>resize\<close> throws, is the 32-bit product (\<open>wrap32\<close>); the cell indices of the
    loops and kernels are taken without overflow.
  \<^item> A \<^verbatim>\<open>std::vector<float>\<close> and a device buffer are a \<^typ>\<open>real list\<close>, indexed by
    \<open>nat k\<close>; a Node \<^verbatim>\<open>Buffer\<close> is a list of bytes.
  \<^item> \<^verbatim>\<open>for (int i = lo; i < hi; ++i)\<close> is a \<open>fold\<close> over \<open>[lo..hi - 1]\<close>.
\<close>

type_synonym byte = "8 word"

definition c_div :: "int \<Rightarrow> int \<Rightarrow> int" where
  "c_div a b = sgn a * sgn b * (\<bar>a\<bar> div \<bar>b\<bar>)"

definition c_rem :: "int \<Rightarrow> int \<Rightarrow> int" where
  "c_rem a b = a - b * c_div a b"

text \<open>
  The value of an \<^verbatim>\<open>int\<close> expression whose exact value is \<open>x\<close>: the low 32 bits, read as a
  signed number. Inside the range of \<^verbatim>\<open>int\<close> that is \<open>x\<close>; outside it C++ leaves the result
  undefined, and the compiled engine wraps around.
\<close>

definition wrap32 :: "int \<Rightarrow> int" where
  "wrap32 x = (x + 2 ^ 31) mod 2 ^ 32 - 2 ^ 31"

definition for_range :: "int \<Rightarrow> int \<Rightarrow> (int \<Rightarrow> 's \<Rightarrow> 's) \<Rightarrow> 's \<Rightarrow> 's" where
  "for_range lo hi body s = fold body [lo..hi - 1] s"

section \<open>The engine: parameters and command line\<close>

text \<open>The tunables of the engine.\<close>

definition CFL_DEFAULT :: real where
  "CFL_DEFAULT = 0.45"

definition VISC_ALPHA :: real where
  "VISC_ALPHA = 0.002"

definition REPORT_STEPS :: int where
  "REPORT_STEPS = 100"

definition ENERGY_THREADS :: nat where
  "ENERGY_THREADS = 256"

text \<open>\<^verbatim>\<open>struct Params\<close>; the fields carry the prefix \<open>p_\<close>.\<close>

record Params =
  p_nx :: int
  p_ny :: int
  p_dx :: real
  p_dt :: real
  p_steps :: int
  p_frames_every :: int
  p_pml :: int
  p_c0 :: real
  p_amp :: real
  p_f0 :: real
  p_sx :: int
  p_sy :: int
  p_cfl :: real
  p_model :: string

definition default_Params :: Params where
  "default_Params =
     \<lparr>p_nx = 512, p_ny = 512, p_dx = 5, p_dt = 6 / 10000,
      p_steps = 1000000000, p_frames_every = 10, p_pml = 20,
      p_c0 = 3000, p_amp = 5 / 100, p_f0 = 8,
      p_sx = - 1, p_sy = - 1, p_cfl = CFL_DEFAULT, p_model = ''homogeneous''\<rparr>"

text \<open>
  What ends the process early. \<open>Die m\<close> is \<^verbatim>\<open>die(m)\<close>: the message \<open>m\<close> on \<^verbatim>\<open>std::cerr\<close>, then
  \<^verbatim>\<open>std::exit(1)\<close>. \<open>Uncaught e\<close> is an exception that no handler catches (the engine has no
  \<^verbatim>\<open>try\<close>): \<^verbatim>\<open>std::terminate\<close> ends the process abnormally, and the program itself writes
  nothing.
\<close>

datatype cpp_exn = Invalid_argument | Out_of_range | Length_error

datatype fatal = Die string | Uncaught cpp_exn

text \<open>
  \<^verbatim>\<open>std::stoi\<close> (base 10, through \<^verbatim>\<open>strtol\<close>): leading white space is skipped, one sign is
  read, then the longest run of digits; what follows the digits is ignored. No digit at all
  throws \<^verbatim>\<open>std::invalid_argument\<close>, a value outside \<^verbatim>\<open>int\<close> throws \<^verbatim>\<open>std::out_of_range\<close>.
\<close>

definition isspace :: "char \<Rightarrow> bool" where
  "isspace ch = (of_char ch \<in> {9, 10, 11, 12, 13, 32 :: nat})"

definition isdigit :: "char \<Rightarrow> bool" where
  "isdigit ch = (48 \<le> (of_char ch :: nat) \<and> (of_char ch :: nat) \<le> 57)"

definition digits_val :: "string \<Rightarrow> int" where
  "digits_val ds = foldl (\<lambda>acc ch. acc * 10 + (int (of_char ch) - 48)) 0 ds"

definition stoi :: "string \<Rightarrow> cpp_exn + int" where
  "stoi str =
     (let s1 = dropWhile isspace str;
          neg = (s1 \<noteq> [] \<and> hd s1 = CHR ''-'');
          s2 = (if s1 \<noteq> [] \<and> (hd s1 = CHR ''-'' \<or> hd s1 = CHR ''+'') then tl s1 else s1);
          ds = takeWhile isdigit s2
      in if ds = [] then Inl Invalid_argument
         else let v = (if neg then - digits_val ds else digits_val ds)
              in if v < - (2 ^ 31) \<or> 2 ^ 31 - 1 < v then Inl Out_of_range else Inr v)"

text \<open>
  The lambda \<^verbatim>\<open>need\<close> of \<^verbatim>\<open>parse_args\<close>: \<open>rest\<close> is what follows the option name on the
  command line. \<^verbatim>\<open>std::stof\<close> is the library's \<^verbatim>\<open>strtof\<close> (decimal and hexadecimal floats,
  infinities, NaN, rounding): it is a parameter \<open>stof\<close> of the parser.
\<close>

definition need :: "string list \<Rightarrow> fatal + string" where
  "need rest = (case rest of [] \<Rightarrow> Inl (Die ''Missing value'') | v # _ \<Rightarrow> Inr v)"

definition stoi_need :: "string list \<Rightarrow> fatal + int" where
  "stoi_need rest =
     (case need rest of
        Inl e \<Rightarrow> Inl e
      | Inr v \<Rightarrow> (case stoi v of Inl x \<Rightarrow> Inl (Uncaught x) | Inr n \<Rightarrow> Inr n))"

definition stof_need :: "(string \<Rightarrow> cpp_exn + real) \<Rightarrow> string list \<Rightarrow> fatal + real" where
  "stof_need stof rest =
     (case need rest of
        Inl e \<Rightarrow> Inl e
      | Inr v \<Rightarrow> (case stof v of Inl x \<Rightarrow> Inl (Uncaught x) | Inr r \<Rightarrow> Inr r))"

definition assign :: "('a \<Rightarrow> Params) \<Rightarrow> fatal + 'a \<Rightarrow> fatal + Params" where
  "assign upd r = (case r of Inl e \<Rightarrow> Inl e | Inr v \<Rightarrow> Inr (upd v))"

text \<open>One turn of the loop of \<^verbatim>\<open>parse_args\<close>: the chain of comparisons on the argument \<open>a\<close>.\<close>

definition parse_one ::
  "(string \<Rightarrow> cpp_exn + real) \<Rightarrow> Params \<Rightarrow> string \<Rightarrow> string list \<Rightarrow> fatal + Params" where
  "parse_one stof p a rest =
     (if a = ''--nx'' then assign (\<lambda>v. p\<lparr>p_nx := v\<rparr>) (stoi_need rest)
      else if a = ''--ny'' then assign (\<lambda>v. p\<lparr>p_ny := v\<rparr>) (stoi_need rest)
      else if a = ''--dx'' then assign (\<lambda>v. p\<lparr>p_dx := v\<rparr>) (stof_need stof rest)
      else if a = ''--dt'' then assign (\<lambda>v. p\<lparr>p_dt := v\<rparr>) (stof_need stof rest)
      else if a = ''--steps'' then assign (\<lambda>v. p\<lparr>p_steps := v\<rparr>) (stoi_need rest)
      else if a = ''--frames_every'' then assign (\<lambda>v. p\<lparr>p_frames_every := v\<rparr>) (stoi_need rest)
      else if a = ''--pml'' then assign (\<lambda>v. p\<lparr>p_pml := v\<rparr>) (stoi_need rest)
      else if a = ''--sponge'' then assign (\<lambda>v. p\<lparr>p_pml := v\<rparr>) (stoi_need rest)
      else if a = ''--c0'' then assign (\<lambda>v. p\<lparr>p_c0 := v\<rparr>) (stof_need stof rest)
      else if a = ''--amp'' then assign (\<lambda>v. p\<lparr>p_amp := v\<rparr>) (stof_need stof rest)
      else if a = ''--f0'' then assign (\<lambda>v. p\<lparr>p_f0 := v\<rparr>) (stof_need stof rest)
      else if a = ''--sx'' then assign (\<lambda>v. p\<lparr>p_sx := v\<rparr>) (stoi_need rest)
      else if a = ''--sy'' then assign (\<lambda>v. p\<lparr>p_sy := v\<rparr>) (stoi_need rest)
      else if a = ''--cfl'' then assign (\<lambda>v. p\<lparr>p_cfl := v\<rparr>) (stof_need stof rest)
      else if a = ''--model'' then assign (\<lambda>v. p\<lparr>p_model := v\<rparr>) (need rest)
      else Inl (Die (''Unknown arg: '' @ a)))"

text \<open>
  The loop over \<^verbatim>\<open>argv[1..]\<close>: an option that was read took the next argument as its value
  (\<^verbatim>\<open>argv[++i]\<close>), so the loop goes on after it.
\<close>

fun parse_loop ::
  "(string \<Rightarrow> cpp_exn + real) \<Rightarrow> Params \<Rightarrow> string list \<Rightarrow> fatal + Params" where
  "parse_loop stof p [] = Inr p"
| "parse_loop stof p (a # rest) =
     (case parse_one stof p a rest of
        Inl e \<Rightarrow> Inl e
      | Inr p' \<Rightarrow> parse_loop stof p' (tl rest))"

definition center_source :: "Params \<Rightarrow> Params" where
  "center_source p =
     (let p1 = (if p_sx p < 0 then p\<lparr>p_sx := c_div (p_nx p) 2\<rparr> else p)
      in if p_sy p1 < 0 then p1\<lparr>p_sy := c_div (p_ny p1) 2\<rparr> else p1)"

definition parse_args :: "(string \<Rightarrow> cpp_exn + real) \<Rightarrow> string list \<Rightarrow> fatal + Params" where
  "parse_args stof args =
     (case parse_loop stof default_Params args of
        Inl e \<Rightarrow> Inl e
      | Inr p \<Rightarrow> Inr (center_source p))"

text \<open>
  Single precision. A \<^verbatim>\<open>float\<close> other than zero is \<open>m * 2 ^ (e - 23)\<close> with an integer \<open>m\<close>,
  \<open>2 ^ 23 \<le> \<bar>m\<bar> < 2 ^ 24\<close> and \<open>- 126 \<le> e\<close>, or with \<open>\<bar>m\<bar> < 2 ^ 23\<close> and \<open>e = - 126\<close>. A
  \<^verbatim>\<open>float\<close> multiplication or division, and the reading of a literal, give the \<^verbatim>\<open>float\<close>
  nearest to the exact value, the one with an even \<open>m\<close> when two are equally near. Results
  beyond the largest \<^verbatim>\<open>float\<close> (an infinity in the engine) are not modelled.
\<close>

definition round_even :: "real \<Rightarrow> int" where
  "round_even x =
     (let f = \<lfloor>x\<rfloor>; d = x - of_int f
      in if d < 1 / 2 then f else if 1 / 2 < d then f + 1 else if even f then f else f + 1)"

definition float_exponent :: "real \<Rightarrow> int" where
  "float_exponent x = max \<lfloor>log 2 \<bar>x\<bar>\<rfloor> (- 126)"

definition ulp32 :: "real \<Rightarrow> real" where
  "ulp32 x = 2 powr (of_int (float_exponent x) - 23)"

definition round32 :: "real \<Rightarrow> real" where
  "round32 x = (if x = 0 then 0 else of_int (round_even (x / ulp32 x)) * ulp32 x)"

definition fmul32 :: "real \<Rightarrow> real \<Rightarrow> real" where
  "fmul32 a b = round32 (a * b)"

text \<open>
  A division by zero gives no number: the quotient is \<open>+\<infinity>\<close>, \<open>-\<infinity>\<close> or NaN, by the signs of
  the dividend and of the zero.
\<close>

definition fdiv32 :: "real \<Rightarrow> real \<Rightarrow> real option" where
  "fdiv32 a b = (if b = 0 then None else Some (round32 (a / b)))"

text \<open>
  The first two statements of \<^verbatim>\<open>main\<close> after parsing: the time step is clamped.
  \<^verbatim>\<open>P.cfl * P.dx / (1.41421356f * P.c0)\<close> is two multiplications and a division of
  \<^verbatim>\<open>float\<close>s, and \<^verbatim>\<open>1.41421356f\<close> is the \<^verbatim>\<open>float\<close> nearest to the decimal. When
  \<^verbatim>\<open>dtmax\<close> is no number, the comparison \<^verbatim>\<open>P.dt > dtmax\<close> fails for \<open>+\<infinity>\<close> and for NaN, and
  the time step is kept; for \<open>-\<infinity>\<close> the engine's time step becomes \<open>-\<infinity>\<close>, which the model does
  not represent (it keeps the time step there too).
\<close>

definition dtmax :: "Params \<Rightarrow> real option" where
  "dtmax P = fdiv32 (fmul32 (p_cfl P) (p_dx P)) (fmul32 (round32 1.41421356) (p_c0 P))"

definition clamp_dt :: "Params \<Rightarrow> Params" where
  "clamp_dt P =
     (case dtmax P of
        Some b \<Rightarrow> (if p_dt P > b then P\<lparr>p_dt := b\<rparr> else P)
      | None \<Rightarrow> P)"

definition resolve :: "(string \<Rightarrow> cpp_exn + real) \<Rightarrow> string list \<Rightarrow> fatal + Params" where
  "resolve stof args =
     (case parse_args stof args of Inl e \<Rightarrow> Inl e | Inr P \<Rightarrow> Inr (clamp_dt P))"

section \<open>The engine: velocity model and sponge mask\<close>

text \<open>
  \<^verbatim>\<open>cfield.resize(n)\<close> with an \<^verbatim>\<open>int\<close> \<open>n\<close>: a negative \<open>n\<close> becomes a size no vector can
  have, and \<^verbatim>\<open>resize\<close> throws \<^verbatim>\<open>std::length_error\<close>. In \<^verbatim>\<open>fillCField\<close> the size and the bound
  of the loop of the homogeneous model are the \<^verbatim>\<open>int\<close> product \<^verbatim>\<open>nx * ny\<close>. An allocation
  that fails for lack of memory (\<^verbatim>\<open>std::bad_alloc\<close>) is not modelled.
\<close>

definition resize :: "int \<Rightarrow> real list \<Rightarrow> cpp_exn + real list" where
  "resize n xs =
     (if n < 0 then Inl Length_error
      else Inr (take (nat n) xs @ replicate (nat n - length xs) 0))"

definition fill_homogeneous :: "Params \<Rightarrow> real list \<Rightarrow> real list" where
  "fill_homogeneous p cfield =
     for_range 0 (wrap32 (p_nx p * p_ny p)) (\<lambda>i cf. cf[nat i := p_c0 p]) cfield"

definition fill_two_layer :: "Params \<Rightarrow> real list \<Rightarrow> real list" where
  "fill_two_layer p cfield =
     (let nx = p_nx p; ny = p_ny p; mid = c_div ny 2
      in for_range 0 ny (\<lambda>j. for_range 0 nx
           (\<lambda>i cf. cf[nat (j * nx + i) := (if j \<ge> mid then p_c0 p * 1.5 else p_c0 p)])) cfield)"

definition fill_circle :: "Params \<Rightarrow> real list \<Rightarrow> real list" where
  "fill_circle p cfield =
     (let nx = p_nx p; ny = p_ny p; cx = c_div nx 2; cy = c_div ny 2;
          r2 = (real_of_int nx * 0.2) * (real_of_int nx * 0.2)
      in for_range 0 ny (\<lambda>j. for_range 0 nx
           (\<lambda>i cf.
              let dx = i - cx; dy = j - cy;
                  d2 = real_of_int dx * real_of_int dx + real_of_int dy * real_of_int dy
              in cf[nat (j * nx + i) := (if d2 < r2 then p_c0 p * 0.7 else p_c0 p)])) cfield)"

definition fillCField :: "Params \<Rightarrow> real list \<Rightarrow> cpp_exn + real list" where
  "fillCField p cfield =
     (case resize (wrap32 (p_nx p * p_ny p)) cfield of
        Inl e \<Rightarrow> Inl e
      | Inr cf \<Rightarrow>
          Inr (if p_model p = ''homogeneous'' then fill_homogeneous p cf
               else if p_model p = ''two_layer'' then fill_two_layer p cf
               else if p_model p = ''circle'' then fill_circle p cf
               else fill_homogeneous p cf))"

text \<open>
  \<^verbatim>\<open>make_sponge\<close>. The vector has \<^verbatim>\<open>(size_t)nx * ny\<close> cells, which is \<open>nx * ny\<close> for the grids
  the loops visit (\<open>nx\<close>, \<open>ny\<close> positive); \<^verbatim>\<open>powf(r, 4.0f)\<close> is the fourth power.
\<close>

definition make_sponge :: "int \<Rightarrow> int \<Rightarrow> int \<Rightarrow> real list" where
  "make_sponge nx ny w =
     (let s = replicate (nat (nx * ny)) 0
      in if w \<le> 0 then s
         else for_range 0 ny (\<lambda>j. for_range 0 nx
                (\<lambda>i s.
                   let di = min i (nx - 1 - i);
                       dj = min j (ny - 1 - j);
                       d = min di dj
                   in if d < w
                      then (let r = real_of_int (w - d) / real_of_int w
                            in s[nat (j * nx + i) := r ^ 4])
                      else s)) s)"

section \<open>The engine: kernels\<close>

definition ricker :: "real \<Rightarrow> real \<Rightarrow> real" where
  "ricker t f0 =
     (let a = pi * f0 * (t - 1 / f0); a2 = a * a
      in (1 - 2 * a2) * exp (- a2))"

text \<open>
  \<^verbatim>\<open>step_kernel\<close> as one thread \<open>(i, j)\<close> runs it: the buffers \<open>u0\<close>, \<open>u1\<close>, \<open>c\<close>, \<open>sponge\<close> are
  read, \<open>u2\<close> is written and returned.
\<close>

definition step_kernel ::
  "real list \<Rightarrow> real list \<Rightarrow> real list \<Rightarrow> real list \<Rightarrow> real list \<Rightarrow>
   int \<Rightarrow> int \<Rightarrow> real \<Rightarrow> real \<Rightarrow> real \<Rightarrow> int \<Rightarrow> int \<Rightarrow> real list" where
  "step_kernel u0 u1 u2 c sponge nx ny dt dx alpha i j =
     (if i \<le> 0 \<or> j \<le> 0 \<or> i \<ge> nx - 1 \<or> j \<ge> ny - 1 then u2
      else
        let k = j * nx + i;
            uC = u1 ! nat k; uL = u1 ! nat (k - 1); uR = u1 ! nat (k + 1);
            uD = u1 ! nat (k - nx); uU = u1 ! nat (k + nx);
            lap = uL + uR + uD + uU - 4 * uC;
            dudt = (u1 ! nat k - u0 ! nat k) / dt;
            dudtL = (u1 ! nat (k - 1) - u0 ! nat (k - 1)) / dt;
            dudtR = (u1 ! nat (k + 1) - u0 ! nat (k + 1)) / dt;
            dudtD = (u1 ! nat (k - nx) - u0 ! nat (k - nx)) / dt;
            dudtU = (u1 ! nat (k + nx) - u0 ! nat (k + nx)) / dt;
            lap_dudt = dudtL + dudtR + dudtD + dudtU - 4 * dudt;
            coef = (c ! nat k * dt / dx) * (c ! nat k * dt / dx);
            un = 2 * uC - u0 ! nat k + coef * lap - alpha * dt * lap_dudt;
            sp = sponge ! nat k;
            un = (if sp > 0
                  then (let d = 1 - 0.03 * sp; d = (if d < 0 then 0 else d) in un * d)
                  else un)
        in u2[nat k := tanh (0.9 * un)])"

text \<open>
  The launch \<^verbatim>\<open>step_kernel<<<grid, block>>>\<close> of \<^verbatim>\<open>main\<close>, with \<^verbatim>\<open>block(16, 16)\<close> and
  \<^verbatim>\<open>grid((nx + 15) / 16, (ny + 15) / 16)\<close>: one thread for every \<open>(i, j)\<close> below
  \<open>16 * grid\<close>. The threads read \<open>u0\<close> and \<open>u1\<close> only and each writes at most the one cell
  of \<open>u2\<close> that is its own, so running them one after the other (here row by row) gives what
  the device gives.
\<close>

definition threads :: "int \<Rightarrow> int \<Rightarrow> (int \<times> int) list" where
  "threads nx ny =
     concat (map (\<lambda>j. map (\<lambda>i. (i, j)) [0..16 * c_div (nx + 15) 16 - 1])
               [0..16 * c_div (ny + 15) 16 - 1])"

definition step_launch ::
  "real list \<Rightarrow> real list \<Rightarrow> real list \<Rightarrow> real list \<Rightarrow> real list \<Rightarrow>
   int \<Rightarrow> int \<Rightarrow> real \<Rightarrow> real \<Rightarrow> real \<Rightarrow> real list" where
  "step_launch u0 u1 u2 c sponge nx ny dt dx alpha =
     fold (\<lambda>(i, j) u. step_kernel u0 u1 u c sponge nx ny dt dx alpha i j) (threads nx ny) u2"

text \<open>\<^verbatim>\<open>add_source<<<1, 1>>>\<close>: one thread, the two loops in order.\<close>

definition add_source :: "real list \<Rightarrow> int \<Rightarrow> int \<Rightarrow> int \<Rightarrow> int \<Rightarrow> real \<Rightarrow> real list" where
  "add_source u nx ny sx sy val =
     (let R = 3
      in for_range (- R) (R + 1) (\<lambda>dy. for_range (- R) (R + 1)
           (\<lambda>dx u.
              let x = sx + dx; y = sy + dy
              in if x \<le> 0 \<or> y \<le> 0 \<or> x \<ge> nx - 1 \<or> y \<ge> ny - 1 then u
                 else let w = exp (- 0.5 * real_of_int (dx * dx + dy * dy) / 9)
                      in u[nat (y * nx + x) := u ! nat (y * nx + x) + val * w])) u)"

text \<open>
  \<^verbatim>\<open>sum_energy_kernel\<close>. One block: every thread \<open>tid\<close> squares its cell into \<open>sdata\<close>; in
  each round of the loop the threads below \<open>s\<close> add the cell \<open>s\<close> places further up (a round
  reads only cells no thread of that round writes); thread 0 adds \<open>sdata[0]\<close> to the total.
\<close>

definition reduce_round :: "nat \<Rightarrow> real list \<Rightarrow> real list" where
  "reduce_round s sdata =
     map (\<lambda>tid. if tid < s then sdata ! tid + sdata ! (tid + s) else sdata ! tid)
       [0..<length sdata]"

fun tree_reduce :: "nat \<Rightarrow> real list \<Rightarrow> real list" where
  "tree_reduce s sdata =
     (if s > 0 then tree_reduce (s div 2) (reduce_round s sdata) else sdata)"

definition sum_energy_block :: "real list \<Rightarrow> nat \<Rightarrow> nat \<Rightarrow> nat \<Rightarrow> real" where
  "sum_energy_block u N blockDim blockIdx =
     (let sdata = map (\<lambda>tid. let i = blockIdx * blockDim + tid
                             in if i < N then u ! i * u ! i else 0) [0..<blockDim]
      in tree_reduce (blockDim div 2) sdata ! 0)"

text \<open>
  The launch of \<^verbatim>\<open>main\<close>: \<^verbatim>\<open>d_energy\<close> is set to 0, then
  \<^verbatim>\<open>(N + ENERGY_THREADS - 1) / ENERGY_THREADS\<close> blocks of \<^verbatim>\<open>ENERGY_THREADS\<close> threads each add
  their sum.
\<close>

definition sum_energy :: "real list \<Rightarrow> nat \<Rightarrow> real" where
  "sum_energy u N =
     (let blocks = (N + ENERGY_THREADS - 1) div ENERGY_THREADS
      in fold (\<lambda>b out_energy. out_energy + sum_energy_block u N ENERGY_THREADS b)
           [0..<blocks] 0)"

section \<open>The engine: main loop\<close>

text \<open>
  What the engine writes, in the order it writes it: the lines of the text channel
  (\<^verbatim>\<open>stderr\<close>) and the frames of the binary channel (\<^verbatim>\<open>stdout\<close>). A \<^verbatim>\<open>PERF\<close> line carries a
  wall-clock time, which the model leaves out.
\<close>

datatype event =
    Diagnostic string
  | Header int int real int
  | Perf
  | Energy real
  | Frame "real list"

datatype exit_status = Exit int | Terminated cpp_exn | Division_by_zero

record sim =
  d_u0 :: "real list"
  d_u1 :: "real list"
  d_u2 :: "real list"
  sim_t :: real

definition init_sim :: "Params \<Rightarrow> sim" where
  "init_sim P =
     (let N = nat (p_nx P * p_ny P)
      in \<lparr>d_u0 = replicate N 0, d_u1 = replicate N 0, d_u2 = replicate N 0, sim_t = 0\<rparr>)"

text \<open>
  The body of the loop of \<^verbatim>\<open>main\<close> at step \<open>n\<close>: the new state, what was written, and
  whether the process died in \<^verbatim>\<open>n % P.frames_every\<close> (an integer division by zero).
\<close>

definition loop_body ::
  "Params \<Rightarrow> real list \<Rightarrow> real list \<Rightarrow> int \<Rightarrow> sim \<Rightarrow> sim \<times> event list \<times> bool" where
  "loop_body P h_c h_sponge n st =
     (let N = nat (p_nx P * p_ny P);
          u2 = step_launch (d_u0 st) (d_u1 st) (d_u2 st) h_c h_sponge
                 (p_nx P) (p_ny P) (p_dt P) (p_dx P) VISC_ALPHA;
          src = p_amp P * ricker (sim_t st) (p_f0 P);
          u2 = add_source u2 (p_nx P) (p_ny P) (p_sx P) (p_sy P) src;
          st' = \<lparr>d_u0 = d_u1 st, d_u1 = u2, d_u2 = d_u0 st, sim_t = sim_t st + p_dt P\<rparr>;
          report = (if c_rem n REPORT_STEPS = 0 \<and> n > 0
                    then [Perf, Energy (sum_energy (d_u1 st') N)] else [])
      in if p_frames_every P = 0 then (st', report, True)
         else (st', report @ (if c_rem n (p_frames_every P) = 0 then [Frame (d_u1 st')] else []),
               False))"

text \<open>The first \<open>k\<close> turns of the loop, \<open>n = 0, \<dots>, k - 1\<close>.\<close>

primrec run_steps ::
  "Params \<Rightarrow> real list \<Rightarrow> real list \<Rightarrow> nat \<Rightarrow> sim \<times> event list \<times> bool" where
  "run_steps P h_c h_sponge 0 = (init_sim P, [], False)"
| "run_steps P h_c h_sponge (Suc k) =
     (case run_steps P h_c h_sponge k of
        (st, ev, crashed) \<Rightarrow>
          if crashed then (st, ev, True)
          else (case loop_body P h_c h_sponge (int k) st of
                  (st', ev', crashed') \<Rightarrow> (st', ev @ ev', crashed')))"

definition main :: "(string \<Rightarrow> cpp_exn + real) \<Rightarrow> string list \<Rightarrow> event list \<times> exit_status" where
  "main stof args =
     (case parse_args stof args of
        Inl (Die m) \<Rightarrow> ([Diagnostic m], Exit 1)
      | Inl (Uncaught e) \<Rightarrow> ([], Terminated e)
      | Inr P0 \<Rightarrow>
          let P = clamp_dt P0; N = nat (p_nx P * p_ny P)
          in (case fillCField P (replicate N 0) of
                Inl e \<Rightarrow> ([], Terminated e)
              | Inr h_c \<Rightarrow>
                  let h_sponge = make_sponge (p_nx P) (p_ny P) (p_pml P)
                  in (case run_steps P h_c h_sponge (nat (p_steps P)) of
                        (st, ev, crashed) \<Rightarrow>
                          (Header (p_nx P) (p_ny P) (p_dt P) (p_frames_every P) # ev,
                           if crashed then Division_by_zero else Exit 0))))"

section \<open>The relay: one session\<close>

text \<open>
  The state the relay keeps on the socket object \<^verbatim>\<open>ws\<close>. \<open>engineProc\<close> is the handle of a child
  process (its number in the table of processes below) or \<^verbatim>\<open>null\<close>; \<open>readyOpen\<close> is
  \<^verbatim>\<open>ws.readyState === ws.OPEN\<close>.
\<close>

record ws_state =
  engineProc :: "nat option"
  stdoutBuffer :: "byte list"
  stderrBuffer :: string
  frameSize :: nat
  readyOpen :: bool

text \<open>
  The loop of the \<^verbatim>\<open>stdout\<close> handler: while the buffer holds \<open>frameSize\<close> bytes, the first
  \<open>frameSize\<close> bytes are sent and cut off. The handler returns before the loop when
  \<open>frameSize\<close> is 0, so the loop runs with a positive \<open>frameSize\<close> only. The result is the
  frames sent, in order, and the buffer left.
\<close>

function drain :: "nat \<Rightarrow> byte list \<Rightarrow> byte list list \<times> byte list" where
  "drain fs buf =
     (if 0 < fs \<and> fs \<le> length buf
      then (case drain fs (drop fs buf) of (frames, rest) \<Rightarrow> (take fs buf # frames, rest))
      else ([], buf))"
  by pat_completeness auto
termination
  by (relation "measure (\<lambda>(fs, buf). length buf)") auto

text \<open>\<^verbatim>\<open>engineProc.stdout.on("data", ...)\<close>: the new state and the frames sent to the client.\<close>

definition on_stdout :: "ws_state \<Rightarrow> byte list \<Rightarrow> ws_state \<times> byte list list" where
  "on_stdout w chunk =
     (if \<not> readyOpen w then (w, [])
      else let w1 = w\<lparr>stdoutBuffer := stdoutBuffer w @ chunk\<rparr>
           in if frameSize w1 = 0 then (w1, [])
              else (case drain (frameSize w1) (stdoutBuffer w1) of
                      (frames, rest) \<Rightarrow> (w1\<lparr>stdoutBuffer := rest\<rparr>, frames)))"

text \<open>
  The \<^verbatim>\<open>stderr\<close> handler on a line that matches \<^verbatim>\<open>HEADER nx=(\d+) ny=(\d+)\<close>: the frame size is
  set from the two numbers (the splitting into lines and the matching are not modelled).
\<close>

definition on_header :: "ws_state \<Rightarrow> nat \<Rightarrow> nat \<Rightarrow> ws_state" where
  "on_header w nx ny = w\<lparr>frameSize := nx * ny * 4\<rparr>"

text \<open>The chunks of one engine, one after the other: the frames sent add up.\<close>

fun feed :: "ws_state \<Rightarrow> byte list list \<Rightarrow> ws_state \<times> byte list list" where
  "feed w [] = (w, [])"
| "feed w (chunk # chunks) =
     (case on_stdout w chunk of
        (w1, sent1) \<Rightarrow> (case feed w1 chunks of (w2, sent2) \<Rightarrow> (w2, sent1 @ sent2)))"

text \<open>
  What \<^verbatim>\<open>fwrite(h_frame.data(), sizeof(float), N, stdout)\<close> writes for a frame: the cells in
  the order of the buffer, each as the bytes \<open>enc\<close> gives it (the memory of a \<^verbatim>\<open>float\<close>).
\<close>

definition frame_bytes :: "(real \<Rightarrow> byte list) \<Rightarrow> real list \<Rightarrow> byte list" where
  "frame_bytes enc cells = concat (map enc cells)"

fun frames_of :: "event list \<Rightarrow> real list list" where
  "frames_of [] = []"
| "frames_of (Frame f # evs) = f # frames_of evs"
| "frames_of (_ # evs) = frames_of evs"

fun energies_of :: "event list \<Rightarrow> real list" where
  "energies_of [] = []"
| "energies_of (Energy e # evs) = e # energies_of evs"
| "energies_of (_ # evs) = energies_of evs"

section \<open>The relay: sessions and processes\<close>

text \<open>
  A child process is running, or it was sent the signal of \<^verbatim>\<open>kill()\<close> and has not ended yet,
  or it has ended. \<^verbatim>\<open>kill()\<close> sends the signal and returns; the relay learns that a process
  has ended from its \<^verbatim>\<open>exit\<close> event, which arrives in a later turn of the event loop.
  \<^verbatim>\<open>spawn\<close> adds a running process. The log records the calls \<^verbatim>\<open>kill\<close> and \<^verbatim>\<open>spawn\<close> in order.
\<close>

datatype proc_status = Running | Kill_sent | Exited

datatype 'cfg action = Kill nat | Spawn nat 'cfg

record 'cfg relay =
  ws :: ws_state
  procs :: "proc_status list"
  actions :: "'cfg action list"

definition kill :: "nat \<Rightarrow> proc_status list \<Rightarrow> proc_status list" where
  "kill p ps = (if p < length ps \<and> ps ! p = Running then ps[p := Kill_sent] else ps)"

definition stopEngine :: "'cfg relay \<Rightarrow> 'cfg relay" where
  "stopEngine r =
     (let r1 = (case engineProc (ws r) of
                  Some p \<Rightarrow> r\<lparr>procs := kill p (procs r),
                               actions := actions r @ [Kill p],
                               ws := (ws r)\<lparr>engineProc := None\<rparr>\<rparr>
                | None \<Rightarrow> r)
      in r1\<lparr>ws := (ws r1)\<lparr>stdoutBuffer := [], stderrBuffer := [], frameSize := 0\<rparr>\<rparr>)"

definition startEngine :: "'cfg relay \<Rightarrow> 'cfg \<Rightarrow> 'cfg relay" where
  "startEngine r cfg =
     (let r1 = stopEngine r;
          r2 = r1\<lparr>ws := (ws r1)\<lparr>stdoutBuffer := [], stderrBuffer := [], frameSize := 0\<rparr>\<rparr>;
          engine = length (procs r2)
      in r2\<lparr>procs := procs r2 @ [Running],
             actions := actions r2 @ [Spawn engine cfg],
             ws := (ws r2)\<lparr>engineProc := Some engine\<rparr>\<rparr>)"

text \<open>
  The events of a session: a message of the client (anything that is not a start or a stop
  command, or does not parse, changes nothing), the closing of the socket, and the end of a
  child process, on which the handler of \<^verbatim>\<open>exit\<close> clears the handle if it is still that
  process's.
\<close>

datatype 'cfg message = Msg_start 'cfg | Msg_stop | Msg_other

datatype 'cfg relay_event = Ws_message "'cfg message" | Ws_close | Engine_exit nat

definition on_exit :: "'cfg relay \<Rightarrow> nat \<Rightarrow> 'cfg relay" where
  "on_exit r p =
     (if p < length (procs r) \<and> procs r ! p \<noteq> Exited
      then (let r1 = r\<lparr>procs := (procs r)[p := Exited]\<rparr>
            in if engineProc (ws r1) = Some p then r1\<lparr>ws := (ws r1)\<lparr>engineProc := None\<rparr>\<rparr> else r1)
      else r)"

fun relay_step :: "'cfg relay \<Rightarrow> 'cfg relay_event \<Rightarrow> 'cfg relay" where
  "relay_step r (Ws_message (Msg_start cfg)) = startEngine r cfg"
| "relay_step r (Ws_message Msg_stop) = stopEngine r"
| "relay_step r (Ws_message Msg_other) = r"
| "relay_step r Ws_close = (stopEngine r)\<lparr>ws := (ws (stopEngine r))\<lparr>readyOpen := False\<rparr>\<rparr>"
| "relay_step r (Engine_exit p) = on_exit r p"

definition connect :: "'cfg relay" where
  "connect =
     \<lparr>ws = \<lparr>engineProc = None, stdoutBuffer = [], stderrBuffer = [], frameSize = 0,
             readyOpen = True\<rparr>,
      procs = [], actions = []\<rparr>"

definition relay_run :: "'cfg relay_event list \<Rightarrow> 'cfg relay" where
  "relay_run evs = foldl relay_step connect evs"

definition live :: "proc_status list \<Rightarrow> nat list" where
  "live ps = filter (\<lambda>p. ps ! p \<noteq> Exited) [0..<length ps]"

text \<open>
  The handle and the table of processes agree: the process of the handle, and no other, is
  running (it has not been sent a signal and has not ended).
\<close>

definition handle_inv :: "'cfg relay \<Rightarrow> bool" where
  "handle_inv r \<longleftrightarrow>
     (\<forall>q < length (procs r). procs r ! q = Running \<longleftrightarrow> engineProc (ws r) = Some q)
     \<and> (\<forall>p. engineProc (ws r) = Some p \<longrightarrow> p < length (procs r))"

text \<open>
  What reaches a session, with the output of the child processes: a chunk of \<^verbatim>\<open>stdout\<close> and
  a \<^verbatim>\<open>HEADER\<close> line of \<^verbatim>\<open>stderr\<close>, each with the process it comes from. \<^verbatim>\<open>startEngine\<close>
  registers the two handlers on every process it spawns, and both work on the fields of
  \<^verbatim>\<open>ws\<close>: unlike the handler of \<^verbatim>\<open>exit\<close>, they do not compare their process with
  \<^verbatim>\<open>ws.engineProc\<close>, so the output of a process that was sent \<^verbatim>\<open>kill()\<close> and has not ended is
  handled like the output of the process of the handle. The second component collects the
  frames sent to the client.
\<close>

datatype 'cfg session_event =
    Relay "'cfg relay_event"
  | Stdout_chunk nat "byte list"
  | Stderr_header nat nat nat

fun session_step ::
  "'cfg relay \<times> byte list list \<Rightarrow> 'cfg session_event \<Rightarrow> 'cfg relay \<times> byte list list" where
  "session_step (r, out) (Relay e) = (relay_step r e, out)"
| "session_step (r, out) (Stdout_chunk p chunk) =
     (if p < length (procs r)
      then (case on_stdout (ws r) chunk of (w, sent) \<Rightarrow> (r\<lparr>ws := w\<rparr>, out @ sent))
      else (r, out))"
| "session_step (r, out) (Stderr_header p nx ny) =
     (if p < length (procs r)
      then (r\<lparr>ws := on_header (ws r) nx ny\<rparr>, out)
      else (r, out))"

definition session_run :: "'cfg session_event list \<Rightarrow> 'cfg relay \<times> byte list list" where
  "session_run evs = foldl session_step (connect, []) evs"

section \<open>The command line as the specification words it\<close>

text \<open>
  The names of the options by the type of their value, and what it is for the value \<open>v\<close> of
  the option \<open>a\<close> to parse as that type; an option of neither list takes any string.
\<close>

definition int_options :: "string list" where
  "int_options = [''--nx'', ''--ny'', ''--steps'', ''--frames_every'', ''--pml'', ''--sponge'',
                  ''--sx'', ''--sy'']"

definition float_options :: "string list" where
  "float_options = [''--dx'', ''--dt'', ''--c0'', ''--amp'', ''--f0'', ''--cfl'']"

definition option_names :: "string list" where
  "option_names = int_options @ float_options @ [''--model'']"

definition value_parses :: "(string \<Rightarrow> cpp_exn + real) \<Rightarrow> string \<Rightarrow> string \<Rightarrow> bool" where
  "value_parses stof a v \<longleftrightarrow>
     (a \<in> set int_options \<longrightarrow> isl (stoi v) = False)
     \<and> (a \<in> set float_options \<longrightarrow> isl (stof v) = False)"

section \<open>The update as the specification words it\<close>

text \<open>
  The update of one cell in the words of the specification, to compare the kernel with: the
  Laplacian over the four neighbours of the cell \<open>k\<close> of a row-major grid of width \<open>nx\<close>; the
  provisional value \<open>2 * current - previous + coef * laplacian -
  viscosity * dt * laplacian_of_time_derivative\<close> with \<open>coef = (speed * dt / dx)\<^sup>2\<close>, the time
  derivative being \<open>(current - previous) / dt\<close>; the attenuation \<open>max 0 (1 - 0.03 * mask)\<close>
  where the mask is positive; and the hyperbolic tangent of the gain 0.9 times the attenuated
  value.
\<close>

definition spec_laplacian :: "(int \<Rightarrow> real) \<Rightarrow> int \<Rightarrow> int \<Rightarrow> real" where
  "spec_laplacian f nx k = f (k - 1) + f (k + 1) + f (k - nx) + f (k + nx) - 4 * f k"

definition spec_provisional ::
  "real list \<Rightarrow> real list \<Rightarrow> real list \<Rightarrow> int \<Rightarrow> real \<Rightarrow> real \<Rightarrow> real \<Rightarrow> int \<Rightarrow> real" where
  "spec_provisional previous current speed nx dt dx viscosity k =
     (let coef = (speed ! nat k * dt / dx)\<^sup>2
      in 2 * current ! nat k - previous ! nat k
         + coef * spec_laplacian (\<lambda>m. current ! nat m) nx k
         - viscosity * dt
           * spec_laplacian (\<lambda>m. (current ! nat m - previous ! nat m) / dt) nx k)"

definition spec_attenuated :: "real \<Rightarrow> real \<Rightarrow> real" where
  "spec_attenuated msk v = (if msk > 0 then v * max 0 (1 - 0.03 * msk) else v)"

definition spec_update ::
  "real list \<Rightarrow> real list \<Rightarrow> real list \<Rightarrow> real list \<Rightarrow> int \<Rightarrow> real \<Rightarrow> real \<Rightarrow> real \<Rightarrow> int
   \<Rightarrow> real" where
  "spec_update previous current speed sponge nx dt dx viscosity k =
     tanh (0.9 * spec_attenuated (sponge ! nat k)
                   (spec_provisional previous current speed nx dt dx viscosity k))"

section \<open>Lemmas on loops\<close>

declare drain.simps [simp del]
declare tree_reduce.simps [simp del]

text \<open>An invariant of every turn of a loop holds after the loop.\<close>

lemma fold_invariant:
  "(\<And>t s. t \<in> set ts \<Longrightarrow> I s \<Longrightarrow> I (f t s)) \<Longrightarrow> I s \<Longrightarrow> I (fold f ts s)"
  by (induction ts arbitrary: s) simp_all

text \<open>
  A property \<open>Q\<close> that the turn \<open>t0\<close> establishes and no turn destroys holds after the loop
  (\<open>I\<close> is an invariant the turns may rely on).
\<close>

lemma fold_hit:
  assumes "t0 \<in> set ts"
    and "\<And>t s. t \<in> set ts \<Longrightarrow> I s \<Longrightarrow> I (f t s)"
    and "\<And>t s. t \<in> set ts \<Longrightarrow> I s \<Longrightarrow> Q s \<Longrightarrow> Q (f t s)"
    and "\<And>s. I s \<Longrightarrow> Q (f t0 s)"
    and "I s"
  shows "Q (fold f ts s)"
  using assms
proof (induction ts arbitrary: s)
  case Nil
  then show ?case by simp
next
  case (Cons t ts)
  show ?case
  proof (cases "t = t0")
    case True
    have "I (f t0 s) \<and> Q (f t0 s)"
      using Cons.prems True by simp
    then have "(\<lambda>s. I s \<and> Q s) (fold f ts (f t0 s))"
      using Cons.prems(2,3) by (intro fold_invariant [where I = "\<lambda>s. I s \<and> Q s"]) auto
    then show ?thesis using True by simp
  next
    case False
    then have "t0 \<in> set ts" using Cons.prems(1) by simp
    moreover have "I (f t s)" using Cons.prems by simp
    ultimately have "Q (fold f ts (f t s))"
      using Cons.prems(2,3,4) by (intro Cons.IH) auto
    then show ?thesis by simp
  qed
qed

text \<open>Two nested loops are one loop over the pairs, row by row.\<close>

lemma fold_nested:
  "fold (\<lambda>j. fold (\<lambda>i. g i j) is) js s
   = fold (\<lambda>(i, j). g i j) (concat (map (\<lambda>j. map (\<lambda>i. (i, j)) is) js)) s"
  by (induction js arbitrary: s) (simp_all add: fold_map comp_def)

text \<open>Cells of a row-major grid of width \<open>nx\<close>: the index \<open>j * nx + i\<close>.\<close>
lemma for_range_eq: "for_range lo hi body = fold body [lo..hi - 1]"
  by (rule ext) (simp add: for_range_def)

lemma grid_index_bound:
  fixes i j nx ny :: int
  assumes "0 \<le> i" "i < nx" "0 \<le> j" "j < ny"
  shows "0 \<le> j * nx + i" and "j * nx + i < nx * ny"
proof -
  have nx: "0 < nx" using assms by linarith
  show "0 \<le> j * nx + i" using assms nx by simp
  have "j * nx \<le> (ny - 1) * nx"
    using assms nx by (intro mult_right_mono) simp_all
  then show "j * nx + i < nx * ny"
    using assms by (simp add: algebra_simps)
qed

lemma grid_index_inj:
  fixes i j i' j' nx :: int
  assumes "0 \<le> i" "i < nx" "0 \<le> i'" "i' < nx" "j * nx + i = j' * nx + i'"
  shows "i = i' \<and> j = j'"
proof -
  have "(j * nx + i) mod nx = (j' * nx + i') mod nx"
    using assms(5) by simp
  then have i: "i = i'" using assms(1-4) by simp
  then have "j * nx = j' * nx" using assms(5) by simp
  then have "j = j'" using assms(1,2) by simp
  with i show ?thesis by simp
qed

lemma grid_nat_inj:
  fixes i j i' j' nx ny :: int
  assumes "0 \<le> i" "i < nx" "0 \<le> j" "0 \<le> i'" "i' < nx" "0 \<le> j'"
    and "nat (j * nx + i) = nat (j' * nx + i')"
  shows "i = i' \<and> j = j'"
proof -
  have "0 \<le> j * nx + i" "0 \<le> j' * nx + i'" using assms by simp_all
  then have "j * nx + i = j' * nx + i'" using assms(7) by simp
  then show ?thesis using assms grid_index_inj by blast
qed

lemma cells_set:
  "set (concat (map (\<lambda>j. map (\<lambda>i. (i, j)) [0..bx - 1]) [0..by - 1]))
   = {(i, j). 0 \<le> i \<and> i < bx \<and> 0 \<le> j \<and> j < by}"
  by auto

section \<open>The command line\<close>

lemma parse_one_head: "parse_one stof p a (v # r1) = parse_one stof p a (v # r2)"
  by (simp add: parse_one_def stoi_need_def stof_need_def need_def)

lemma parse_one_alias: "parse_one stof p ''--sponge'' rest = parse_one stof p ''--pml'' rest"
  by (simp add: parse_one_def)

lemma parse_loop_alias:
  "even (length pre) \<Longrightarrow>
   parse_loop stof p (pre @ ''--sponge'' # rest) = parse_loop stof p (pre @ ''--pml'' # rest)"
proof (induction pre arbitrary: p rule: induct_list012)
  case 1
  show ?case by (simp add: parse_one_alias)
next
  case (2 x)
  then show ?case by simp
next
  case (3 x y zs)
  have ev: "even (length zs)" using 3(3) by simp
  have h: "parse_one stof p x (y # zs @ ''--sponge'' # rest)
           = parse_one stof p x (y # zs @ ''--pml'' # rest)"
    by (rule parse_one_head)
  show ?case
    using 3(1)[OF ev] by (simp add: h split: sum.split)
qed

lemma stoi_7: "stoi ''7'' = Inr 7"
  by (simp add: stoi_def isspace_def isdigit_def digits_val_def)

lemma stoi_abc: "stoi ''abc'' = Inl Invalid_argument"
  by (simp add: stoi_def isspace_def isdigit_def)

text \<open>
  C10. \<^verbatim>\<open>--sponge\<close> is read as \<^verbatim>\<open>--pml\<close>. Every option takes one value, so the arguments at
  the even places of the command line are the option names: with \<^verbatim>\<open>--sponge\<close> at such a place,
  the resolved configuration and the whole run are those of the command line with \<^verbatim>\<open>--pml\<close>
  there, whatever the value; and the parser takes the \<^verbatim>\<open>--sponge\<close> branch, which stores the
  value in \<open>pml\<close>, not the branch of an unknown option.
\<close>

theorem sponge_alias:
  "even (length pre) \<Longrightarrow>
   resolve stof (pre @ ''--sponge'' # v # post) = resolve stof (pre @ ''--pml'' # v # post)
   \<and> main stof (pre @ ''--sponge'' # v # post) = main stof (pre @ ''--pml'' # v # post)
   \<and> parse_one stof p ''--sponge'' (v # post)
       = assign (\<lambda>n. p\<lparr>p_pml := n\<rparr>) (stoi_need (v # post))"
  by (simp add: resolve_def main_def parse_args_def parse_loop_alias parse_one_def)

theorem sponge_alias_witness:
  "even (length ([] :: string list)) \<and>
   resolve (\<lambda>s. Inl Invalid_argument) [''--sponge'', ''7'']
     = resolve (\<lambda>s. Inl Invalid_argument) [''--pml'', ''7'']
   \<and> resolve (\<lambda>s. Inl Invalid_argument) [''--sponge'', ''7'']
     = Inr (clamp_dt (center_source (default_Params\<lparr>p_pml := 7\<rparr>)))"
  using sponge_alias [of "[]" "\<lambda>s. Inl Invalid_argument" "''7''" "[]" default_Params]
  by (simp add: resolve_def parse_args_def parse_one_def assign_def stoi_need_def need_def stoi_7)

text \<open>
  C9, at the command line \<^verbatim>\<open>--nx abc\<close>. \<^verbatim>\<open>std::stoi\<close> throws \<^verbatim>\<open>std::invalid_argument\<close>; nothing
  catches it, so the process ends in \<^verbatim>\<open>std::terminate\<close>: \<^verbatim>\<open>die\<close> is not called, the program
  writes no diagnostic, and the exit is not the \<^verbatim>\<open>exit(1)\<close> of \<^verbatim>\<open>die\<close>. No simulation work is
  done.
\<close>

theorem unparsable_value_uncaught:
  "parse_args stof [''--nx'', ''abc''] = Inl (Uncaught Invalid_argument)
   \<and> main stof [''--nx'', ''abc''] = ([], Terminated Invalid_argument)"
  by (simp add: main_def parse_args_def parse_one_def stoi_need_def need_def assign_def stoi_abc)

section \<open>The time step\<close>

lemma round_even_near:
  assumes "\<bar>y - of_int n\<bar> < 1 / 2"
  shows "round_even y = n"
proof (cases "of_int n \<le> y")
  case True
  then have "\<lfloor>y\<rfloor> = n" using assms by (intro floor_unique) auto
  then show ?thesis using assms True by (simp add: round_even_def Let_def)
next
  case False
  then have "\<lfloor>y\<rfloor> = n - 1" using assms by (intro floor_unique) auto
  then show ?thesis using assms False by (simp add: round_even_def Let_def)
qed

text \<open>How \<open>round32\<close> is evaluated: the exponent \<open>e\<close> and the integer \<open>n\<close> are given.\<close>

lemma round32_eval:
  assumes "2 powr of_int e \<le> \<bar>x\<bar>" "\<bar>x\<bar> < 2 powr (of_int e + 1)" "- 126 \<le> e"
    and "q = 2 powr (of_int e - 23)"
    and "\<bar>x / q - of_int n\<bar> < 1 / 2"
  shows "round32 x = of_int n * q"
proof -
  have pos: "0 < \<bar>x\<bar>" using assms(1) powr_gt_zero [of 2 "of_int e"] by linarith
  have "\<lfloor>log 2 \<bar>x\<bar>\<rfloor> = e"
    using assms(1,2) pos by (simp add: floor_log_eq_powr_iff)
  then have "float_exponent x = e" using assms(3) by (simp add: float_exponent_def)
  then have "ulp32 x = q" using assms(4) by (simp add: ulp32_def)
  then show ?thesis using pos round_even_near [OF assms(5)] by (simp add: round32_def)
qed

text \<open>
  The literal \<^verbatim>\<open>1.41421356f\<close> is the number \<open>11863283 / 2 ^ 23\<close> (the bits \<^verbatim>\<open>0x3fb504f3\<close>),
  and so is the square root of 2 in single precision.
\<close>

lemma sqrt2_literal: "round32 1.41421356 = 11863283 / 8388608"
  using round32_eval [of 0 "1.41421356" "1 / 2 ^ 23" 11863283]
  by (simp add: powr_neg_numeral)

lemma sqrt2_float: "round32 (sqrt 2) = 11863283 / 8388608"
proof -
  have lo: "23726565 / 16777216 < sqrt 2"
    by (rule real_less_rsqrt) (simp add: power2_eq_square)
  have hi: "sqrt 2 < 23726567 / 16777216"
    by (rule real_less_lsqrt) (simp_all add: power2_eq_square)
  have near: "\<bar>sqrt 2 / (1 / 2 ^ 23) - of_int 11863283\<bar> < 1 / 2"
    using lo hi unfolding abs_less_iff by simp
  have "1 \<le> sqrt 2" "sqrt 2 < 2"
    using lo hi by simp_all
  then show ?thesis
    using round32_eval [of 0 "sqrt 2" "1 / 2 ^ 23" 11863283] near
    by (simp add: powr_neg_numeral)
qed

lemma dtmax_sqrt2:
  "dtmax P =
     (if round32 (round32 (sqrt 2) * p_c0 P) = 0 then None
      else Some (round32 (round32 (p_cfl P * p_dx P) / round32 (round32 (sqrt 2) * p_c0 P))))"
  by (simp only: dtmax_def fmul32_def fdiv32_def sqrt2_literal sqrt2_float)

text \<open>With no option given: \<open>0.45 * 5\<close>, \<open>sqrt 2 * 3000\<close> and their quotient, rounded.\<close>

lemma default_numerator: "round32 (0.45 * 5) = 2.25"
  using round32_eval [of 1 "0.45 * 5" "1 / 2 ^ 22" 9437184]
  by (simp add: powr_neg_numeral)

lemma default_divisor: "round32 (11863283 / 8388608 * 3000) = 4242.640625"
  using round32_eval [of 12 "11863283 / 8388608 * 3000" "1 / 2 ^ 11" 8688928]
  by (simp add: powr_neg_numeral)

lemma default_quotient: "round32 (2.25 / 4242.640625) = 4555501 / 2 ^ 33"
  using round32_eval [of "- 11" "2.25 / 4242.640625" "1 / 2 ^ 34" 9111002]
  by (simp add: powr_neg_numeral)

lemma default_dtmax:
  assumes "p_cfl P = 0.45" "p_dx P = 5" "p_c0 P = 3000"
  shows "round32 (round32 (p_cfl P * p_dx P) / round32 (round32 (sqrt 2) * p_c0 P))
         = 4555501 / 2 ^ 33"
  unfolding assms sqrt2_float default_numerator default_divisor default_quotient ..

lemma center_source_fields:
  "p_cfl (center_source P) = p_cfl P" "p_dx (center_source P) = p_dx P"
  "p_c0 (center_source P) = p_c0 P" "p_dt (center_source P) = p_dt P"
  by (simp_all add: center_source_def Let_def)

text \<open>
  The rounding moves a number of the normal range by at most one part in \<open>2 ^ 24\<close>.
\<close>

lemma round_even_half: "\<bar>of_int (round_even y) - y\<bar> \<le> 1 / 2"
  by (simp add: round_even_def Let_def)

lemma round32_rel:
  assumes "2 powr (- 126) \<le> \<bar>x\<bar>"
  shows "\<bar>round32 x - x\<bar> \<le> \<bar>x\<bar> / 2 ^ 24"
proof -
  define e where "e = \<lfloor>log 2 \<bar>x\<bar>\<rfloor>"
  define q :: real where "q = 2 powr (of_int e - 23)"
  have pos: "0 < \<bar>x\<bar>" using assms powr_gt_zero [of 2 "- 126"] by linarith
  have "log 2 (2 powr (- 126)) \<le> log 2 \<bar>x\<bar>"
    using assms pos by (subst log_le_cancel_iff) simp_all
  then have "- 126 \<le> log 2 \<bar>x\<bar>" by simp
  then have e: "- 126 \<le> e" unfolding e_def by (simp add: le_floor_iff)
  have fe: "float_exponent x = e" using e by (simp add: float_exponent_def e_def)
  have u: "ulp32 x = q" by (simp add: ulp32_def fe q_def)
  have qpos: "0 < q" by (simp add: q_def)
  have "of_int e \<le> log 2 \<bar>x\<bar>" unfolding e_def by simp
  then have lo: "2 powr of_int e \<le> \<bar>x\<bar>"
    using pos by (simp add: le_log_iff)
  have q2: "q = 2 powr of_int e / 2 ^ 23"
    by (simp add: q_def powr_diff)
  have "round32 x - x = q * (of_int (round_even (x / q)) - x / q)"
    using pos qpos by (simp add: round32_def u field_simps)
  then have "\<bar>round32 x - x\<bar> = q * \<bar>of_int (round_even (x / q)) - x / q\<bar>"
    using qpos by (simp add: abs_mult)
  also have "\<dots> \<le> q * (1 / 2)"
    using round_even_half [of "x / q"] qpos by (intro mult_left_mono) simp_all
  also have "\<dots> = 2 powr of_int e / 2 ^ 24" by (simp add: q2)
  also have "\<dots> \<le> \<bar>x\<bar> / 2 ^ 24" using lo by (simp add: divide_right_mono)
  finally show ?thesis .
qed

lemma round32_pos:
  assumes "2 powr (- 126) \<le> x"
  shows "(1 - 1 / 2 ^ 24) * x \<le> round32 x \<and> round32 x \<le> (1 + 1 / 2 ^ 24) * x"
proof -
  have "0 < x" using assms powr_gt_zero [of 2 "- 126"] by linarith
  then have "\<bar>round32 x - x\<bar> \<le> x / 16777216"
    using round32_rel [of x] assms by simp
  then have "round32 x - x \<le> x / 16777216" "x - round32 x \<le> x / 16777216"
    by linarith+
  then show ?thesis by simp
qed

lemma quotient_bounds:
  fixes a a' b b' l h :: real
  assumes "0 < a" "0 < b" "0 < l" "l \<le> h"
    and "l * a \<le> a'" "a' \<le> h * a" "l * b \<le> b'" "b' \<le> h * b"
  shows "l / h * (a / b) \<le> a' / b' \<and> a' / b' \<le> h / l * (a / b)"
proof -
  have "0 < l * b" "0 < l * a" using assms by simp_all
  then have b': "0 < b'" and a': "0 < a'" using assms by linarith+
  have "a' / b' \<le> (h * a) / (l * b)"
    using assms a' b' by (intro frac_le) simp_all
  moreover have "(l * a) / (h * b) \<le> a' / b'"
    using assms a' b' by (intro frac_le) simp_all
  ultimately show ?thesis by simp
qed



section \<open>The velocity model\<close>

lemma wrap32_id: "- (2 ^ 31) \<le> n \<Longrightarrow> n < 2 ^ 31 \<Longrightarrow> wrap32 n = n"
  by (simp add: wrap32_def)

lemma fill_homogeneous_nth:
  assumes "m < length cf" "length cf = nat (wrap32 (p_nx p * p_ny p))"
  shows "fill_homogeneous p cf ! m = p_c0 p"
  unfolding fill_homogeneous_def for_range_def
proof (rule fold_hit [where ?t0.0 = "int m" and I = "\<lambda>s. length s = length cf"])
  show "int m \<in> set [0..wrap32 (p_nx p * p_ny p) - 1]" using assms by auto
qed (use assms in \<open>auto simp: nth_list_update\<close>)

lemma fill_homogeneous_length: "length (fill_homogeneous p cf) = length cf"
  unfolding fill_homogeneous_def for_range_def
  by (rule fold_invariant) simp_all

lemma fill_homogeneous_eq:
  "length cf = nat (wrap32 (p_nx p * p_ny p)) \<Longrightarrow>
   fill_homogeneous p cf = replicate (length cf) (p_c0 p)"
  by (simp add: list_eq_iff_nth_eq fill_homogeneous_length fill_homogeneous_nth)

lemma resize_length: "resize n xs = Inr ys \<Longrightarrow> length ys = nat n"
  by (auto simp: resize_def split: if_splits)

lemma fill_homogeneous_model: "fill_homogeneous (p\<lparr>p_model := m\<rparr>) cf = fill_homogeneous p cf"
  by (simp add: fill_homogeneous_def)

lemma fillCField_homogeneous:
  "fillCField (p\<lparr>p_model := ''homogeneous''\<rparr>) cfield
   = (if wrap32 (p_nx p * p_ny p) < 0 then Inl Length_error
      else Inr (replicate (nat (wrap32 (p_nx p * p_ny p))) (p_c0 p)))"
proof (cases "wrap32 (p_nx p * p_ny p) < 0")
  case True
  then show ?thesis by (simp add: fillCField_def resize_def)
next
  case False
  then obtain cf where r: "resize (wrap32 (p_nx p * p_ny p)) cfield = Inr cf"
    by (simp add: resize_def)
  then have len: "length cf = nat (wrap32 (p_nx p * p_ny p))" by (rule resize_length)
  show ?thesis
    using False r len fill_homogeneous_eq [of cf p]
    by (simp add: fillCField_def fill_homogeneous_model)
qed

text \<open>
  C6 as stated fails: the builder does raise an error with an unrecognized name, the one it
  raises with \<^verbatim>\<open>homogeneous\<close>. With \<open>nx = - 1\<close>, \<open>ny = 1\<close> the size given to \<^verbatim>\<open>resize\<close> is
  negative; with \<open>nx = ny = 46341\<close> the product is above the largest \<^verbatim>\<open>int\<close> and the 32-bit
  product is negative. In both cases \<^verbatim>\<open>resize\<close> throws \<^verbatim>\<open>std::length_error\<close>.
\<close>

theorem unknown_model_error_counterexample:
  "fillCField (default_Params\<lparr>p_nx := - 1, p_ny := 1, p_model := ''foo''\<rparr>) []
     = Inl Length_error
   \<and> fillCField (default_Params\<lparr>p_nx := 46341, p_ny := 46341, p_model := ''foo''\<rparr>) []
     = Inl Length_error"
  by (simp add: fillCField_def resize_def wrap32_def)

text \<open>
  C6, amended. With a model name that is none of \<^verbatim>\<open>homogeneous\<close>, \<^verbatim>\<open>two_layer\<close>, \<^verbatim>\<open>circle\<close>,
  the builder returns what it returns with \<^verbatim>\<open>homogeneous\<close>, for every grid, speed and vector it
  is given: the field with \<open>c0\<close> in each of its cells, as many as the \<^verbatim>\<open>int\<close> product \<open>nx * ny\<close>,
  when that product is not negative, and \<^verbatim>\<open>std::length_error\<close> when it is. On a grid whose
  exact product \<open>nx * ny\<close> is an \<^verbatim>\<open>int\<close> that is not negative, these are \<open>nx * ny\<close> cells and
  there is no error.
\<close>

theorem unknown_model_homogeneous:
  assumes "m \<noteq> ''homogeneous''" "m \<noteq> ''two_layer''" "m \<noteq> ''circle''"
  shows "fillCField (p\<lparr>p_model := m\<rparr>) cfield
           = fillCField (p\<lparr>p_model := ''homogeneous''\<rparr>) cfield
         \<and> fillCField (p\<lparr>p_model := m\<rparr>) cfield
           = (if wrap32 (p_nx p * p_ny p) < 0 then Inl Length_error
              else Inr (replicate (nat (wrap32 (p_nx p * p_ny p))) (p_c0 p)))
         \<and> (0 \<le> p_nx p * p_ny p \<and> p_nx p * p_ny p < 2 ^ 31 \<longrightarrow>
              fillCField (p\<lparr>p_model := m\<rparr>) cfield
                = Inr (replicate (nat (p_nx p * p_ny p)) (p_c0 p)))"
proof -
  have eq: "fillCField (p\<lparr>p_model := m\<rparr>) cfield
            = fillCField (p\<lparr>p_model := ''homogeneous''\<rparr>) cfield"
    using assms by (simp add: fillCField_def fill_homogeneous_model split: sum.split)
  have "wrap32 (p_nx p * p_ny p) = p_nx p * p_ny p"
    if "0 \<le> p_nx p * p_ny p \<and> p_nx p * p_ny p < 2 ^ 31"
    using that by (intro wrap32_id) simp_all
  then show ?thesis
    unfolding eq fillCField_homogeneous by auto
qed

theorem unknown_model_homogeneous_witness:
  "''foo'' \<noteq> ''homogeneous'' \<and> ''foo'' \<noteq> ''two_layer'' \<and> ''foo'' \<noteq> ''circle''
   \<and> (0 :: int) \<le> 2 * 2 \<and> (2 :: int) * 2 < 2 ^ 31
   \<and> fillCField (default_Params\<lparr>p_nx := 2, p_ny := 2, p_model := ''foo''\<rparr>) []
       = Inr [3000, 3000, 3000, 3000]
   \<and> fillCField (default_Params\<lparr>p_nx := 2, p_ny := 2, p_model := ''homogeneous''\<rparr>) []
       = Inr [3000, 3000, 3000, 3000]"
  using unknown_model_homogeneous [of "''foo''" "default_Params\<lparr>p_nx := 2, p_ny := 2\<rparr>" "[]"]
  by (auto simp: default_Params_def numeral_eq_Suc)

section \<open>The sponge mask\<close>

lemma make_sponge_nth:
  assumes "0 \<le> i" "i < nx" "0 \<le> j" "j < ny"
    and d: "d = min (min i (nx - 1 - i)) (min j (ny - 1 - j))"
  shows "make_sponge nx ny w ! nat (j * nx + i)
         = (if w \<le> 0 \<or> w \<le> d then 0 else (real_of_int (w - d) / real_of_int w) ^ 4)"
proof -
  let ?k = "nat (j * nx + i)"
  let ?N = "nat (nx * ny)"
  have k: "?k < ?N" using grid_index_bound [OF assms(1-4)] by simp
  let ?f = "\<lambda>(i, j) s.
              let di = min i (nx - 1 - i); dj = min j (ny - 1 - j); d = min di dj
              in if d < w then (let r = real_of_int (w - d) / real_of_int w
                                in s[nat (j * nx + i) := r ^ 4]) else s"
  let ?ts = "concat (map (\<lambda>j. map (\<lambda>i. (i, j)) [0..nx - 1]) [0..ny - 1])"
  have unfold: "make_sponge nx ny w = (if w \<le> 0 then replicate ?N 0 else fold ?f ?ts (replicate ?N 0))"
    by (simp add: make_sponge_def for_range_eq fold_nested Let_def)
  have mem: "(i, j) \<in> set ?ts" using assms(1-4) unfolding cells_set by simp
  show ?thesis
  proof (cases "w \<le> 0")
    case True
    then show ?thesis using k by (simp add: unfold)
  next
    case pos: False
    show ?thesis
    proof (cases "d < w")
      case True
      have "fold ?f ?ts (replicate ?N 0) ! ?k = (real_of_int (w - d) / real_of_int w) ^ 4"
      proof (rule fold_hit [where ?t0.0 = "(i, j)" and I = "\<lambda>s. length s = ?N"])
        show "(i, j) \<in> set ?ts" by (rule mem)
      next
        fix t and s :: "real list" assume "t \<in> set ?ts" "length s = ?N"
        then show "length (?f t s) = ?N" by (auto simp: Let_def)
      next
        fix t and s :: "real list" assume t: "t \<in> set ?ts" and "length s = ?N"
          and q: "s ! ?k = (real_of_int (w - d) / real_of_int w) ^ 4"
        obtain i' j' where t': "t = (i', j')" by (cases t)
        have rng: "0 \<le> i'" "i' < nx" "0 \<le> j'" "j' < ny" using t t' unfolding cells_set by simp_all
        show "?f t s ! ?k = (real_of_int (w - d) / real_of_int w) ^ 4"
        proof (cases "nat (j' * nx + i') = ?k")
          case True
          then have "i' = i \<and> j' = j"
            using grid_nat_inj [of i' nx j' i j] rng assms(1-4) by simp
          then show ?thesis using q t' d \<open>length s = ?N\<close> k by (simp add: Let_def)
        next
          case False
          then show ?thesis using q t' by (simp add: Let_def)
        qed
      next
        fix s :: "real list" assume "length s = ?N"
        then show "?f (i, j) s ! ?k = (real_of_int (w - d) / real_of_int w) ^ 4"
          using True d k by (simp add: Let_def)
      next
        show "length (replicate ?N (0::real)) = ?N" by simp
      qed
      then show ?thesis using pos True by (simp add: unfold)
    next
      case False
      have "fold ?f ?ts (replicate ?N 0) ! ?k = 0"
      proof (rule fold_invariant [where I = "\<lambda>s. s ! ?k = 0"])
        fix t and s :: "real list" assume t: "t \<in> set ?ts" and q: "s ! ?k = (0::real)"
        obtain i' j' where t': "t = (i', j')" by (cases t)
        have rng: "0 \<le> i'" "i' < nx" "0 \<le> j'" "j' < ny" using t t' unfolding cells_set by simp_all
        show "?f t s ! ?k = 0"
        proof (cases "nat (j' * nx + i') = ?k")
          case True
          then have "i' = i \<and> j' = j"
            using grid_nat_inj [of i' nx j' i j] rng assms(1-4) by simp
          then show ?thesis using q t' d False by (simp add: Let_def)
        next
          case False
          then show ?thesis using q t' by (simp add: Let_def)
        qed
      next
        show "replicate ?N (0::real) ! ?k = 0" using k by simp
      qed
      then show ?thesis using pos False by (simp add: unfold)
    qed
  qed
qed

text \<open>
  C3. For the cell \<open>(i, j)\<close> of the grid, with \<open>d\<close> the least of its distances to the four
  edges (\<open>i\<close>, \<open>nx - 1 - i\<close>, \<open>j\<close>, \<open>ny - 1 - j\<close>): the mask is \<open>((w - d) / w)\<^sup>4\<close> when
  \<open>d < w\<close> and 0 otherwise; it is 0 everywhere when \<open>w \<le> 0\<close>; it is 1 at distance 0 when
  \<open>w > 0\<close>; and of two cells the one nearer to the edge has the strictly larger mask, if it
  lies in the layer.
\<close>

theorem sponge_profile:
  assumes "0 \<le> i" "i < nx" "0 \<le> j" "j < ny"
    and "0 \<le> i'" "i' < nx" "0 \<le> j'" "j' < ny"
    and d: "d = min (min i (nx - 1 - i)) (min j (ny - 1 - j))"
    and d': "d' = min (min i' (nx - 1 - i')) (min j' (ny - 1 - j'))"
  shows "make_sponge nx ny w ! nat (j * nx + i)
           = (if d < w then (real_of_int (w - d) / real_of_int w) ^ 4 else 0)
         \<and> (w \<le> 0 \<longrightarrow> make_sponge nx ny w ! nat (j * nx + i) = 0)
         \<and> (0 < w \<longrightarrow> d = 0 \<longrightarrow> make_sponge nx ny w ! nat (j * nx + i) = 1)
         \<and> (d < d' \<longrightarrow> d < w \<longrightarrow>
              make_sponge nx ny w ! nat (j' * nx + i') < make_sponge nx ny w ! nat (j * nx + i))"
proof -
  let ?m = "make_sponge nx ny w ! nat (j * nx + i)"
  let ?m' = "make_sponge nx ny w ! nat (j' * nx + i')"
  have d0: "0 \<le> d" using assms(1-4) d by simp
  have m: "?m = (if w \<le> 0 \<or> w \<le> d then 0 else (real_of_int (w - d) / real_of_int w) ^ 4)"
    by (rule make_sponge_nth [OF assms(1-4) d])
  have m': "?m' = (if w \<le> 0 \<or> w \<le> d' then 0 else (real_of_int (w - d') / real_of_int w) ^ 4)"
    by (rule make_sponge_nth [OF assms(5-8) d'])
  have 1: "?m = (if d < w then (real_of_int (w - d) / real_of_int w) ^ 4 else 0)"
    using m d0 by auto
  have 2: "w \<le> 0 \<longrightarrow> ?m = 0" using m by simp
  have 3: "0 < w \<longrightarrow> d = 0 \<longrightarrow> ?m = 1" using m by simp
  have 4: "?m' < ?m" if lt: "d < d'" and inl: "d < w"
  proof -
    have w: "0 < w" using d0 inl by simp
    have mv: "?m = (real_of_int (w - d) / real_of_int w) ^ 4" using m w inl by simp
    have pos: "0 < real_of_int (w - d) / real_of_int w" using w inl by simp
    show ?thesis
    proof (cases "d' < w")
      case True
      have "real_of_int (w - d') / real_of_int w < real_of_int (w - d) / real_of_int w"
        using w lt by (simp add: divide_strict_right_mono)
      moreover have "0 \<le> real_of_int (w - d') / real_of_int w" using w True by simp
      ultimately have "(real_of_int (w - d') / real_of_int w) ^ 4 < (real_of_int (w - d) / real_of_int w) ^ 4"
        by (intro power_strict_mono) simp_all
      then show ?thesis using m' mv w True by simp
    next
      case False
      then have z: "?m' = 0" using m' by simp
      have p4: "0 < (real_of_int (w - d) / real_of_int w) ^ 4"
        using pos by (rule zero_less_power)
      show ?thesis unfolding z mv by (rule p4)
    qed
  qed
  from 1 2 3 4 show ?thesis by blast
qed

theorem sponge_profile_witness:
  "make_sponge 64 64 10 ! nat (0 * 64 + 0) = 1
   \<and> make_sponge 64 64 10 ! nat (20 * 64 + 20) = 0
   \<and> make_sponge 64 64 10 ! nat (20 * 64 + 20) < make_sponge 64 64 10 ! nat (0 * 64 + 0)"
  using sponge_profile [of 0 64 0 64 20 20 0 20 10]
    sponge_profile [of 20 64 20 64 0 0 20 0 10]
  by simp

section \<open>The stencil kernel\<close>

lemma c_div_pos: "0 \<le> a \<Longrightarrow> 0 < b \<Longrightarrow> c_div a b = a div b"
  by (cases "a = 0") (simp_all add: c_div_def)

lemma threads_set:
  "set (threads nx ny)
   = {(i, j). 0 \<le> i \<and> i < 16 * c_div (nx + 15) 16 \<and> 0 \<le> j \<and> j < 16 * c_div (ny + 15) 16}"
  unfolding threads_def by (rule cells_set)

lemma grid_covered: "0 \<le> i \<Longrightarrow> i < nx \<Longrightarrow> i < 16 * c_div (nx + 15) 16"
  by (simp add: c_div_pos)

lemma step_kernel_eq:
  "step_kernel u0 u1 u2 c sponge nx ny dt dx alpha i j
   = (if 0 < i \<and> i < nx - 1 \<and> 0 < j \<and> j < ny - 1
      then u2[nat (j * nx + i) := spec_update u0 u1 c sponge nx dt dx alpha (j * nx + i)]
      else u2)"
  by (auto simp: step_kernel_def spec_update_def spec_attenuated_def spec_provisional_def
      spec_laplacian_def Let_def max_def power2_eq_square)

lemma stencil_in_range:
  fixes i j nx ny :: int
  assumes "0 < i" "i < nx - 1" "0 < j" "j < ny - 1"
  shows "0 \<le> j * nx + i - nx" and "j * nx + i + nx < nx * ny"
proof -
  have a: "0 \<le> (j - 1) * nx + i" "(j - 1) * nx + i < nx * ny"
    using grid_index_bound [of i nx "j - 1" ny] assms by simp_all
  have b: "(j + 1) * nx + i < nx * ny"
    using grid_index_bound [of i nx "j + 1" ny] assms by simp
  show "0 \<le> j * nx + i - nx" using a by (simp add: algebra_simps)
  show "j * nx + i + nx < nx * ny" using b by (simp add: algebra_simps)
qed

text \<open>
  C1. After one launch of the kernel on a buffer \<open>u2\<close> of \<open>nx * ny\<close> cells, the cell
  \<open>(i, j)\<close> of the grid holds, if it is interior (\<open>0 < i < nx - 1\<close>, \<open>0 < j < ny - 1\<close>), the
  update of the specification: \<open>tanh (0.9 * v)\<close> with \<open>v\<close> the provisional value
  \<open>2 * current - previous + coef * laplacian - viscosity * dt * laplacian_of_time_derivative\<close>,
  \<open>coef = (speed * dt / dx)\<^sup>2\<close>, multiplied by \<open>max 0 (1 - 0.03 * mask)\<close> where the mask is
  positive; a cell of the boundary ring holds what it held before.
\<close>

theorem step_kernel_cells:
  assumes len: "length u2 = nat (nx * ny)"
    and cell: "0 \<le> i" "i < nx" "0 \<le> j" "j < ny"
  shows "step_launch u0 u1 u2 c sponge nx ny dt dx alpha ! nat (j * nx + i)
         = (if 0 < i \<and> i < nx - 1 \<and> 0 < j \<and> j < ny - 1
            then spec_update u0 u1 c sponge nx dt dx alpha (j * nx + i)
            else u2 ! nat (j * nx + i))"
proof -
  let ?k = "nat (j * nx + i)"
  let ?f = "\<lambda>(i, j) u. step_kernel u0 u1 u c sponge nx ny dt dx alpha i j"
  have k: "?k < length u2" using grid_index_bound [OF cell] len by simp
  have mem: "(i, j) \<in> set (threads nx ny)"
    using cell grid_covered [of i nx] grid_covered [of j ny] unfolding threads_set by simp
  have other: "?f t s ! ?k = s ! ?k" if "t \<noteq> (i, j)" for t and s :: "real list"
  proof -
    obtain i' j' where t: "t = (i', j')" by (cases t)
    show ?thesis
    proof (cases "0 < i' \<and> i' < nx - 1 \<and> 0 < j' \<and> j' < ny - 1")
      case True
      then have "nat (j' * nx + i') \<noteq> ?k"
        using grid_nat_inj [of i' nx j' i j] cell that t by auto
      then show ?thesis using t True by (simp add: step_kernel_eq)
    next
      case False
      then show ?thesis using t by (auto simp: step_kernel_eq)
    qed
  qed
  have keep_len: "length (?f t s) = length s" for t s
    by (cases t) (simp add: step_kernel_eq)
  show ?thesis
  proof (cases "0 < i \<and> i < nx - 1 \<and> 0 < j \<and> j < ny - 1")
    case True
    have "fold ?f (threads nx ny) u2 ! ?k = spec_update u0 u1 c sponge nx dt dx alpha (j * nx + i)"
    proof (rule fold_hit [where ?t0.0 = "(i, j)" and I = "\<lambda>s. length s = length u2"])
      show "(i, j) \<in> set (threads nx ny)" by (rule mem)
    next
      fix t and s :: "real list" assume "length s = length u2"
      then show "length (?f t s) = length u2" by (simp add: keep_len)
    next
      fix t and s :: "real list"
      assume "length s = length u2"
        and q: "s ! ?k = spec_update u0 u1 c sponge nx dt dx alpha (j * nx + i)"
      show "?f t s ! ?k = spec_update u0 u1 c sponge nx dt dx alpha (j * nx + i)"
      proof (cases "t = (i, j)")
        case True
        then show ?thesis using \<open>length s = length u2\<close> k q
          by (simp add: step_kernel_eq)
      next
        case False
        then show ?thesis using other q by simp
      qed
    next
      fix s :: "real list" assume "length s = length u2"
      then show "?f (i, j) s ! ?k = spec_update u0 u1 c sponge nx dt dx alpha (j * nx + i)"
        using True k by (simp add: step_kernel_eq)
    next
      show "length u2 = length u2" by simp
    qed
    then show ?thesis using True by (simp add: step_launch_def)
  next
    case False
    have "fold ?f (threads nx ny) u2 ! ?k = u2 ! ?k"
    proof (rule fold_invariant [where I = "\<lambda>s. s ! ?k = u2 ! ?k"])
      fix t and s :: "real list" assume q: "s ! ?k = u2 ! ?k"
      show "?f t s ! ?k = u2 ! ?k"
      proof (cases "t = (i, j)")
        case True
        then show ?thesis using False q by (auto simp: step_kernel_eq)
      next
        case False
        then show ?thesis using other q by simp
      qed
    qed simp
    then show ?thesis using False by (auto simp: step_launch_def)
  qed
qed

theorem step_kernel_cells_witness:
  "length (replicate 9 (7::real)) = nat (3 * 3)
   \<and> step_launch (replicate 9 0) [0, 0, 0, 0, 1, 0, 0, 0, 0] (replicate 9 7)
         (replicate 9 (1/2)) (replicate 9 0) 3 3 1 1 0 ! nat (1 * 3 + 1) = tanh 0.9
   \<and> step_launch (replicate 9 0) [0, 0, 0, 0, 1, 0, 0, 0, 0] (replicate 9 7)
         (replicate 9 (1/2)) (replicate 9 0) 3 3 1 1 0 ! nat (0 * 3 + 0) = 7"
  using step_kernel_cells [of "replicate 9 7" 3 3 1 1 "replicate 9 0" "[0, 0, 0, 0, 1, 0, 0, 0, 0]"
      "replicate 9 (1/2)" "replicate 9 0" 1 1 0]
    step_kernel_cells [of "replicate 9 7" 3 3 0 0 "replicate 9 0" "[0, 0, 0, 0, 1, 0, 0, 0, 0]"
      "replicate 9 (1/2)" "replicate 9 0" 1 1 0]
  by (simp add: spec_update_def spec_attenuated_def spec_provisional_def spec_laplacian_def
      power2_eq_square)


section \<open>The main loop\<close>

lemma step_kernel_length:
  "length (step_kernel u0 u1 u2 c sponge nx ny dt dx alpha i j) = length u2"
  by (simp add: step_kernel_eq)

lemma step_launch_length:
  "length (step_launch u0 u1 u2 c sponge nx ny dt dx alpha) = length u2"
  unfolding step_launch_def
  by (rule fold_invariant [where I = "\<lambda>s. length s = length u2"])
     (auto simp: step_kernel_length)

lemma add_source_unfold:
  "add_source u nx ny sx sy val
   = fold (\<lambda>(dx, dy) u.
             let x = sx + dx; y = sy + dy
             in if x \<le> 0 \<or> y \<le> 0 \<or> x \<ge> nx - 1 \<or> y \<ge> ny - 1 then u
                else let w = exp (- 0.5 * real_of_int (dx * dx + dy * dy) / 9)
                     in u[nat (y * nx + x) := u ! nat (y * nx + x) + val * w])
       (concat (map (\<lambda>dy. map (\<lambda>dx. (dx, dy)) [- 3..3]) [- 3..3])) u"
  by (simp add: add_source_def for_range_eq fold_nested Let_def)

lemma add_source_length: "length (add_source u nx ny sx sy val) = length u"
  unfolding add_source_unfold
  by (rule fold_invariant [where I = "\<lambda>s. length s = length u"]) (auto simp: Let_def)

lemma add_source_zero: "add_source u nx ny sx sy 0 = u"
  unfolding add_source_unfold
  by (rule fold_invariant [where I = "\<lambda>s. s = u"]) (auto simp: Let_def)

lemma spec_update_zero:
  assumes "0 < i" "i < nx - 1" "0 < j" "j < ny - 1" and N: "N = nat (nx * ny)"
  shows "spec_update (replicate N 0) (replicate N 0) c sponge nx dt dx alpha (j * nx + i) = 0"
proof -
  let ?k = "j * nx + i"
  have r: "0 \<le> ?k - nx" "?k + nx < nx * ny"
    using stencil_in_range [OF assms(1-4)] by simp_all
  have nx: "0 < nx" using assms by linarith
  have z: "replicate N (0::real) ! nat m = 0" if "?k - nx \<le> m" "m \<le> ?k + nx" for m
    using that r N by simp
  have "spec_provisional (replicate N 0) (replicate N 0) c nx dt dx alpha ?k = 0"
    using nx by (simp add: spec_provisional_def spec_laplacian_def z)
  then show ?thesis by (simp add: spec_update_def spec_attenuated_def)
qed

lemma step_launch_zero:
  assumes N: "N = nat (nx * ny)"
  shows "step_launch (replicate N 0) (replicate N 0) (replicate N 0) c sponge nx ny dt dx alpha
         = replicate N 0"
  unfolding step_launch_def
proof (rule fold_invariant [where I = "\<lambda>s. s = replicate N 0"])
  fix t :: "int \<times> int" and s :: "real list" assume s: "s = replicate N 0"
  obtain i j where t: "t = (i, j)" by (cases t)
  show "(case t of (i, j) \<Rightarrow> \<lambda>u. step_kernel (replicate N 0) (replicate N 0) u c sponge nx ny dt dx alpha i j) s
        = replicate N 0"
  proof (cases "0 < i \<and> i < nx - 1 \<and> 0 < j \<and> j < ny - 1")
    case True
    then have u: "spec_update (replicate N 0) (replicate N 0) c sponge nx dt dx alpha (j * nx + i) = 0"
      using spec_update_zero N by blast
    have k: "nat (j * nx + i) < N"
      using grid_index_bound [of i nx j ny] True N by simp
    have "(replicate N (0::real))[nat (j * nx + i) := 0] = replicate N 0"
      using k by (metis list_update_id nth_replicate)
    then show ?thesis using True t s u by (simp add: step_kernel_eq)
  next
    case False
    then show ?thesis using t s by (auto simp: step_kernel_eq)
  qed
qed simp

lemma reduce_round_zero:
  "2 * s \<le> n \<Longrightarrow> reduce_round s (replicate n 0) = replicate n 0"
  by (auto simp: reduce_round_def list_eq_iff_nth_eq)

lemma tree_reduce_zero:
  "2 * s \<le> n \<Longrightarrow> tree_reduce s (replicate n 0) = replicate n 0"
proof (induction s "replicate n (0::real)" rule: tree_reduce.induct)
  case (1 s)
  show ?case
  proof (cases "s > 0")
    case True
    have "2 * (s div 2) \<le> n" using 1(2) by simp
    then show ?thesis
      using True 1 by (subst tree_reduce.simps) (simp add: reduce_round_zero)
  next
    case False
    then show ?thesis by (subst tree_reduce.simps) simp
  qed
qed

lemma sum_energy_block_zero: "sum_energy_block (replicate N 0) N ENERGY_THREADS b = 0"
proof -
  have "map (\<lambda>tid. let i = b * ENERGY_THREADS + tid
                   in if i < N then replicate N (0::real) ! i * replicate N 0 ! i else 0)
          [0..<ENERGY_THREADS] = replicate ENERGY_THREADS 0"
    by (simp add: list_eq_iff_nth_eq Let_def)
  then show ?thesis
    by (simp add: sum_energy_block_def tree_reduce_zero ENERGY_THREADS_def)
qed

lemma sum_energy_zero: "sum_energy (replicate N 0) N = 0"
  unfolding sum_energy_def Let_def
  by (rule fold_invariant [where I = "\<lambda>e. e = 0"]) (simp_all add: sum_energy_block_zero)

lemma c_rem_nat: "c_rem (int n) b = int n mod \<bar>b\<bar>"
proof (cases "n = 0")
  case True
  then show ?thesis by (simp add: c_rem_def c_div_def)
next
  case False
  have sb: "b * sgn b = \<bar>b\<bar>" by (simp add: abs_sgn)
  have "c_rem (int n) b = int n - (b * sgn b) * (int n div \<bar>b\<bar>)"
    using False by (simp add: c_rem_def c_div_def)
  also have "\<dots> = int n - \<bar>b\<bar> * (int n div \<bar>b\<bar>)" by (simp only: sb)
  also have "\<dots> = int n mod \<bar>b\<bar>" by (simp add: minus_mult_div_eq_mod)
  finally show ?thesis .
qed

lemma frames_of_append: "frames_of (ev @ ev') = frames_of ev @ frames_of ev'"
  by (induction ev rule: frames_of.induct) simp_all

lemma energies_of_append: "energies_of (ev @ ev') = energies_of ev @ energies_of ev'"
  by (induction ev rule: energies_of.induct) simp_all

lemma loop_body_parts:
  assumes "loop_body P c s n st = (st', ev', cr')"
  shows "st' = \<lparr>d_u0 = d_u1 st,
                d_u1 = add_source
                         (step_launch (d_u0 st) (d_u1 st) (d_u2 st) c s (p_nx P) (p_ny P)
                            (p_dt P) (p_dx P) VISC_ALPHA)
                         (p_nx P) (p_ny P) (p_sx P) (p_sy P)
                         (p_amp P * ricker (sim_t st) (p_f0 P)),
                d_u2 = d_u0 st, sim_t = sim_t st + p_dt P\<rparr>"
    and "cr' = (p_frames_every P = 0)"
    and "frames_of ev'
         = (if p_frames_every P \<noteq> 0 \<and> c_rem n (p_frames_every P) = 0 then [d_u1 st'] else [])"
    and "energies_of ev'
         = (if c_rem n REPORT_STEPS = 0 \<and> n > 0
            then [sum_energy (d_u1 st') (nat (p_nx P * p_ny P))] else [])"
  using assms
  by (auto simp: loop_body_def Let_def frames_of_append energies_of_append split: if_splits)

lemma run_steps_Suc_cases:
  assumes "run_steps P c s (Suc k) = (st, ev, cr)"
  obtains (crashed) ev0 where "run_steps P c s k = (st, ev0, True)" "ev = ev0" "cr"
  | (step) st0 ev0 ev1 where "run_steps P c s k = (st0, ev0, False)"
      "loop_body P c s (int k) st0 = (st, ev1, cr)" "ev = ev0 @ ev1"
proof -
  obtain st0 ev0 cr0 where prev: "run_steps P c s k = (st0, ev0, cr0)"
    by (cases "run_steps P c s k")
  obtain st1 ev1 cr1 where body: "loop_body P c s (int k) st0 = (st1, ev1, cr1)"
    by (cases "loop_body P c s (int k) st0")
  show ?thesis
  proof (cases cr0)
    case True
    then show ?thesis using assms prev crashed by simp
  next
    case False
    then show ?thesis using assms prev body step by simp
  qed
qed

lemma run_steps_crashed:
  "run_steps P c s k = (st, ev, cr) \<Longrightarrow> cr \<longleftrightarrow> (p_frames_every P = 0 \<and> 0 < k)"
proof (induction k arbitrary: st ev cr)
  case 0
  then show ?case by simp
next
  case (Suc k)
  from Suc.prems show ?case
  proof (cases rule: run_steps_Suc_cases)
    case (crashed ev0)
    then show ?thesis using Suc.IH by auto
  next
    case (step st0 ev0 ev1)
    then show ?thesis using loop_body_parts(2) by auto
  qed
qed

lemma frames_step:
  assumes m: "0 < m"
  shows "(Suc k + m - 1) div m = (k + m - 1) div m + (if k mod m = 0 then 1 else 0)"
proof -
  define q where "q = k + m - 1"
  have e: "Suc k + m - 1 = Suc q" using m by (simp add: q_def)
  have "Suc q = k + m" using m by (simp add: q_def)
  then have md: "Suc q mod m = k mod m" by simp
  have "Suc q div m = q div m + (if k mod m = 0 then 1 else 0)"
    by (subst div_Suc) (simp add: md)
  then show ?thesis unfolding e q_def .
qed

lemma c_rem_nat_zero: "c_rem (int k) b = 0 \<longleftrightarrow> k mod nat \<bar>b\<bar> = 0"
proof -
  have "int (k mod nat \<bar>b\<bar>) = int k mod \<bar>b\<bar>" by (simp add: zmod_int)
  then have "k mod nat \<bar>b\<bar> = 0 \<longleftrightarrow> int k mod \<bar>b\<bar> = 0"
    by (metis of_nat_eq_0_iff)
  then show ?thesis by (simp add: c_rem_nat)
qed

lemma run_steps_frames_count:
  assumes fe: "p_frames_every P \<noteq> 0"
  shows "run_steps P c s k = (st, ev, cr) \<Longrightarrow>
         length (frames_of ev)
         = (k + nat \<bar>p_frames_every P\<bar> - 1) div nat \<bar>p_frames_every P\<bar>"
proof (induction k arbitrary: st ev cr)
  case 0
  then show ?case using fe by simp
next
  case (Suc k)
  let ?m = "nat \<bar>p_frames_every P\<bar>"
  have m: "0 < ?m" using fe by simp
  from Suc.prems show ?case
  proof (cases rule: run_steps_Suc_cases)
    case (crashed ev0)
    then show ?thesis using run_steps_crashed fe by blast
  next
    case (step st0 ev0 ev1)
    have "c_rem (int k) (p_frames_every P) = 0 \<longleftrightarrow> k mod ?m = 0"
      by (rule c_rem_nat_zero)
    then have "length (frames_of ev1) = (if k mod ?m = 0 then 1 else 0)"
      using loop_body_parts(3) [OF step(2)] fe by simp
    then show ?thesis
      using Suc.IH [OF step(1)] step(3) frames_step [OF m, of k]
      by (simp add: frames_of_append)
  qed
qed

lemma run_steps_no_frames_on_crash:
  assumes fe: "p_frames_every P = 0"
  shows "run_steps P c s k = (st, ev, cr) \<Longrightarrow> frames_of ev = []"
proof (induction k arbitrary: st ev cr)
  case 0
  then show ?case by simp
next
  case (Suc k)
  from Suc.prems show ?case
  proof (cases rule: run_steps_Suc_cases)
    case (crashed ev0)
    then show ?thesis using Suc.IH by simp
  next
    case (step st0 ev0 ev1)
    then show ?thesis using Suc.IH [OF step(1)] loop_body_parts(3) [OF step(2)] fe
      by (simp add: frames_of_append)
  qed
qed

lemma run_steps_energies_count:
  assumes fe: "p_frames_every P \<noteq> 0"
  shows "run_steps P c s k = (st, ev, cr) \<Longrightarrow> length (energies_of ev) = (k - 1) div 100"
proof (induction k arbitrary: st ev cr)
  case 0
  then show ?case by simp
next
  case (Suc k)
  from Suc.prems show ?case
  proof (cases rule: run_steps_Suc_cases)
    case (crashed ev0)
    then show ?thesis using run_steps_crashed fe by blast
  next
    case (step st0 ev0 ev1)
    have "c_rem (int k) REPORT_STEPS = 0 \<longleftrightarrow> k mod 100 = 0"
      using c_rem_nat_zero [of k REPORT_STEPS] by (simp add: REPORT_STEPS_def)
    then have e1: "length (energies_of ev1) = (if k mod 100 = 0 \<and> 0 < k then 1 else 0)"
      using loop_body_parts(4) [OF step(2)] by simp
    have "k div 100 = (k - 1) div 100 + (if k mod 100 = 0 \<and> 0 < k then 1 else 0)"
    proof (cases k)
      case 0
      then show ?thesis by simp
    next
      case (Suc k')
      then show ?thesis by (simp add: div_Suc)
    qed
    then show ?thesis
      using Suc.IH [OF step(1)] step(3) e1 by (simp add: energies_of_append)
  qed
qed

lemma run_steps_lengths:
  "run_steps P c s k = (st, ev, cr) \<Longrightarrow>
   length (d_u0 st) = nat (p_nx P * p_ny P) \<and> length (d_u1 st) = nat (p_nx P * p_ny P)
   \<and> length (d_u2 st) = nat (p_nx P * p_ny P)
   \<and> (\<forall>f \<in> set (frames_of ev). length f = nat (p_nx P * p_ny P))"
proof (induction k arbitrary: st ev cr)
  case 0
  then show ?case by (auto simp: init_sim_def Let_def)
next
  case (Suc k)
  from Suc.prems show ?case
  proof (cases rule: run_steps_Suc_cases)
    case (crashed ev0)
    then show ?thesis using Suc.IH by simp
  next
    case (step st0 ev0 ev1)
    note ih = Suc.IH [OF step(1)]
    note parts = loop_body_parts [OF step(2)]
    have st: "length (d_u0 st) = nat (p_nx P * p_ny P)" "length (d_u1 st) = nat (p_nx P * p_ny P)"
      "length (d_u2 st) = nat (p_nx P * p_ny P)"
      using ih by (simp_all add: parts(1) add_source_length step_launch_length)
    have "\<forall>f \<in> set (frames_of ev1). length f = nat (p_nx P * p_ny P)"
      using st(2) by (simp add: parts(3))
    then show ?thesis using ih st step(3) by (auto simp: frames_of_append)
  qed
qed

lemma run_steps_zero:
  assumes amp: "p_amp P = 0" and N: "N = nat (p_nx P * p_ny P)"
  shows "run_steps P c s k = (st, ev, cr) \<Longrightarrow>
   d_u0 st = replicate N 0 \<and> d_u1 st = replicate N 0 \<and> d_u2 st = replicate N 0
   \<and> (\<forall>f \<in> set (frames_of ev). f = replicate N 0)
   \<and> (\<forall>e \<in> set (energies_of ev). e = 0)"
proof (induction k arbitrary: st ev cr)
  case 0
  then show ?case using N by (auto simp: init_sim_def Let_def)
next
  case (Suc k)
  from Suc.prems show ?case
  proof (cases rule: run_steps_Suc_cases)
    case (crashed ev0)
    then show ?thesis using Suc.IH by simp
  next
    case (step st0 ev0 ev1)
    note ih = Suc.IH [OF step(1)]
    note parts = loop_body_parts [OF step(2)]
    have st: "d_u0 st = replicate N 0" "d_u1 st = replicate N 0" "d_u2 st = replicate N 0"
      using ih amp N by (simp_all add: parts(1) add_source_zero step_launch_zero)
    have "\<forall>f \<in> set (frames_of ev1). f = replicate N 0"
      using st(2) by (simp add: parts(3))
    moreover have "\<forall>e \<in> set (energies_of ev1). e = 0"
      using st(2) N by (simp add: parts(4) sum_energy_zero)
    ultimately show ?thesis using ih st step(3)
      by (auto simp: frames_of_append energies_of_append)
  qed
qed

text \<open>
  C4. The run starts from three buffers of zeros. With source amplitude 0 the field is zero
  after every step, whatever the number \<open>k\<close> of steps, the velocity field and the sponge mask:
  every frame written is the zero field and every energy reported is exactly 0; a run of \<open>k\<close>
  steps reports \<open>(k - 1) div 100\<close> energies. The time step, the cell size and the source
  frequency are taken other than zero: they are the divisors of the kernel and of the source
  wavelet.
\<close>

theorem zero_field_zero_energy:
  assumes "p_amp P = 0"
    and "p_dt P \<noteq> 0" "p_dx P \<noteq> 0" "p_f0 P \<noteq> 0"
    and "length h_c = nat (p_nx P * p_ny P)" "length h_sponge = nat (p_nx P * p_ny P)"
    and run: "run_steps P h_c h_sponge k = (st, ev, crashed)"
  shows "d_u1 st = replicate (nat (p_nx P * p_ny P)) 0
         \<and> (\<forall>f \<in> set (frames_of ev). f = replicate (nat (p_nx P * p_ny P)) 0)
         \<and> (\<forall>e \<in> set (energies_of ev). e = 0)
         \<and> (p_frames_every P \<noteq> 0 \<longrightarrow> energies_of ev = replicate ((k - 1) div 100) 0)"
proof -
  note z = run_steps_zero [OF assms(1) refl run]
  have "energies_of ev = replicate ((k - 1) div 100) 0" if fe: "p_frames_every P \<noteq> 0"
  proof -
    have "length (energies_of ev) = (k - 1) div 100"
      using run_steps_energies_count [OF fe run] .
    moreover have "replicate (length (energies_of ev)) 0 = energies_of ev"
      using z by (intro replicate_length_same) simp
    ultimately show ?thesis by simp
  qed
  with z show ?thesis by simp
qed

theorem zero_field_zero_energy_witness:
  "p_amp (default_Params\<lparr>p_nx := 4, p_ny := 4, p_amp := 0\<rparr>) = 0
   \<and> p_dt (default_Params\<lparr>p_nx := 4, p_ny := 4, p_amp := 0\<rparr>) \<noteq> 0
   \<and> p_dx (default_Params\<lparr>p_nx := 4, p_ny := 4, p_amp := 0\<rparr>) \<noteq> 0
   \<and> p_f0 (default_Params\<lparr>p_nx := 4, p_ny := 4, p_amp := 0\<rparr>) \<noteq> 0
   \<and> energies_of (fst (snd (run_steps (default_Params\<lparr>p_nx := 4, p_ny := 4, p_amp := 0\<rparr>)
         (replicate 16 3000) (replicate 16 0) 250))) = [0, 0]"
proof -
  let ?P = "default_Params\<lparr>p_nx := 4, p_ny := 4, p_amp := 0\<rparr>"
  let ?R = "run_steps ?P (replicate 16 3000) (replicate 16 0) 250"
  have h: "p_amp ?P = 0" "p_dt ?P \<noteq> 0" "p_dx ?P \<noteq> 0" "p_f0 ?P \<noteq> 0"
    "length (replicate 16 (3000::real)) = nat (p_nx ?P * p_ny ?P)"
    "length (replicate 16 (0::real)) = nat (p_nx ?P * p_ny ?P)"
    "p_frames_every ?P \<noteq> 0"
    by (simp_all add: default_Params_def)
  have r: "?R = (fst ?R, fst (snd ?R), snd (snd ?R))" by simp
  have "energies_of (fst (snd ?R)) = replicate ((250 - 1) div 100) 0"
    using zero_field_zero_energy [OF h(1-6) r] h(7) by blast
  then have "energies_of (fst (snd ?R)) = [0, 0]" by (simp add: numeral_2_eq_2)
  with h show ?thesis by blast
qed

text \<open>
  C8 as stated fails: the frame test of the loop is \<^verbatim>\<open>n % P.frames_every == 0\<close>, which holds at
  \<open>n = 0\<close>. With a frame interval of 60 (what the relay passes), a run stopped after one step,
  fewer than 60, has written one frame.
\<close>

theorem first_frame_counterexample:
  "(1::nat) < 60 \<and>
   length (frames_of (fst (snd (run_steps (default_Params\<lparr>p_nx := 4, p_ny := 4, p_frames_every := 60\<rparr>)
         (replicate 16 3000) (replicate 16 0) 1)))) = 1"
proof -
  let ?P = "default_Params\<lparr>p_nx := 4, p_ny := 4, p_frames_every := 60\<rparr>"
  let ?R = "run_steps ?P (replicate 16 3000) (replicate 16 0) 1"
  have fe: "p_frames_every ?P \<noteq> 0" by simp
  have r: "?R = (fst ?R, fst (snd ?R), snd (snd ?R))" by simp
  have "length (frames_of (fst (snd ?R))) = (1 + nat \<bar>p_frames_every ?P\<bar> - 1) div nat \<bar>p_frames_every ?P\<bar>"
    by (rule run_steps_frames_count [OF fe r])
  then show ?thesis by simp
qed

text \<open>
  C8, amended. A frame is written at the end of the turn \<open>n\<close> of the loop when
  \<open>n % frames_every = 0\<close>, \<open>n\<close> counting from 0: after \<open>k\<close> completed steps the engine has
  written \<open>(k + m - 1) div m\<close> frames, \<open>m\<close> the absolute value of the interval, so at least one
  as soon as one step is completed, and none only for \<open>k = 0\<close>. (With an interval of 0 the
  process dies in the first turn, in the remainder by zero, before any frame.)
\<close>

theorem frames_from_first_step:
  assumes run: "run_steps P h_c h_sponge k = (st, ev, crashed)"
  shows "(p_frames_every P \<noteq> 0 \<longrightarrow>
            \<not> crashed
            \<and> length (frames_of ev)
                = (k + nat \<bar>p_frames_every P\<bar> - 1) div nat \<bar>p_frames_every P\<bar>
            \<and> (0 < k \<longrightarrow> frames_of ev \<noteq> []))
         \<and> (k = 0 \<longrightarrow> frames_of ev = [])
         \<and> (p_frames_every P = 0 \<longrightarrow> frames_of ev = [])"
proof -
  have a: "\<not> crashed \<and> length (frames_of ev) = (k + nat \<bar>p_frames_every P\<bar> - 1) div nat \<bar>p_frames_every P\<bar>
           \<and> (0 < k \<longrightarrow> frames_of ev \<noteq> [])"
    if fe: "p_frames_every P \<noteq> 0"
  proof -
    let ?m = "nat \<bar>p_frames_every P\<bar>"
    have m: "0 < ?m" using fe by simp
    have c: "\<not> crashed" using run_steps_crashed [OF run] fe by simp
    have l: "length (frames_of ev) = (k + ?m - 1) div ?m"
      by (rule run_steps_frames_count [OF fe run])
    have "0 < (k + ?m - 1) div ?m" if "0 < k"
      using that m by (simp add: div_greater_zero_iff)
    with c l show ?thesis by auto
  qed
  have b: "frames_of ev = []" if "k = 0" using run that by simp
  have c: "frames_of ev = []" if "p_frames_every P = 0"
    using run_steps_no_frames_on_crash [OF that run] .
  from a b c show ?thesis by blast
qed

theorem frames_from_first_step_witness:
  "length (frames_of (fst (snd (run_steps (default_Params\<lparr>p_nx := 4, p_ny := 4, p_frames_every := 60\<rparr>)
         (replicate 16 3000) (replicate 16 0) 61)))) = 2
   \<and> frames_of (fst (snd (run_steps (default_Params\<lparr>p_nx := 4, p_ny := 4, p_frames_every := 60\<rparr>)
         (replicate 16 3000) (replicate 16 0) 0))) = []"
proof -
  let ?P = "default_Params\<lparr>p_nx := 4, p_ny := 4, p_frames_every := 60\<rparr>"
  let ?R = "run_steps ?P (replicate 16 3000) (replicate 16 0) 61"
  let ?Z = "run_steps ?P (replicate 16 3000) (replicate 16 0) 0"
  have r: "?R = (fst ?R, fst (snd ?R), snd (snd ?R))" by simp
  have r0: "?Z = (fst ?Z, fst (snd ?Z), snd (snd ?Z))" by simp
  have fe: "p_frames_every ?P \<noteq> 0" by simp
  have "length (frames_of (fst (snd ?R))) = (61 + nat \<bar>p_frames_every ?P\<bar> - 1) div nat \<bar>p_frames_every ?P\<bar>"
    using frames_from_first_step [OF r] fe by blast
  moreover have "frames_of (fst (snd ?Z)) = []"
    using frames_from_first_step [OF r0] by blast
  ultimately show ?thesis by simp
qed


section \<open>The relay: frames\<close>

lemma drain_spec:
  "0 < fs \<Longrightarrow> drain fs buf = (frames, rest) \<Longrightarrow>
   concat frames @ rest = buf \<and> (\<forall>f \<in> set frames. length f = fs) \<and> length rest < fs"
proof (induction fs buf arbitrary: frames rest rule: drain.induct)
  case (1 fs buf)
  show ?case
  proof (cases "fs \<le> length buf")
    case True
    obtain frames' rest' where d: "drain fs (drop fs buf) = (frames', rest')"
      by (cases "drain fs (drop fs buf)")
    have ih: "concat frames' @ rest' = drop fs buf \<and> (\<forall>f \<in> set frames'. length f = fs)
              \<and> length rest' < fs"
      using 1(1) [OF _ 1(2) d] 1(2) True by simp
    have "frames = take fs buf # frames'" "rest = rest'"
      using 1(3) 1(2) True d by (subst (asm) drain.simps, simp)+
    then show ?thesis using ih True by simp
  next
    case False
    then have "frames = []" "rest = buf"
      using 1(3) by (subst (asm) drain.simps, simp)+
    then show ?thesis using False by simp
  qed
qed

lemma on_stdout_spec:
  assumes "readyOpen w" "0 < frameSize w" "on_stdout w chunk = (w', sent)"
  shows "concat sent @ stdoutBuffer w' = stdoutBuffer w @ chunk
         \<and> (\<forall>f \<in> set sent. length f = frameSize w)
         \<and> length (stdoutBuffer w') < frameSize w
         \<and> frameSize w' = frameSize w \<and> readyOpen w'"
proof -
  obtain frames rest where d: "drain (frameSize w) (stdoutBuffer w @ chunk) = (frames, rest)"
    by (cases "drain (frameSize w) (stdoutBuffer w @ chunk)")
  have "w' = w\<lparr>stdoutBuffer := rest\<rparr>" "sent = frames"
    using assms d by (simp_all add: on_stdout_def Let_def)
  then show ?thesis using drain_spec [OF assms(2) d] assms(1) by simp
qed

lemma on_stdout_waiting:
  assumes "readyOpen w" "frameSize w = 0" "on_stdout w chunk = (w', sent)"
  shows "sent = [] \<and> stdoutBuffer w' = stdoutBuffer w @ chunk
         \<and> frameSize w' = 0 \<and> readyOpen w' \<and> engineProc w' = engineProc w"
  using assms by (auto simp: on_stdout_def Let_def)

lemma feed_waiting:
  "readyOpen w \<Longrightarrow> frameSize w = 0 \<Longrightarrow> feed w chunks = (w', sent) \<Longrightarrow>
   sent = [] \<and> stdoutBuffer w' = stdoutBuffer w @ concat chunks
   \<and> frameSize w' = 0 \<and> readyOpen w'"
proof (induction chunks arbitrary: w w' sent)
  case Nil
  then show ?case by simp
next
  case (Cons chunk chunks)
  obtain w1 sent1 where s1: "on_stdout w chunk = (w1, sent1)" by (cases "on_stdout w chunk")
  obtain w2 sent2 where s2: "feed w1 chunks = (w2, sent2)" by (cases "feed w1 chunks")
  note a = on_stdout_waiting [OF Cons.prems(1,2) s1]
  have b: "sent2 = [] \<and> stdoutBuffer w2 = stdoutBuffer w1 @ concat chunks
           \<and> frameSize w2 = 0 \<and> readyOpen w2"
    using a by (intro Cons.IH [OF _ _ s2]) simp_all
  have "w' = w2" "sent = sent1 @ sent2" using Cons.prems(3) s1 s2 by simp_all
  then show ?case using a b by simp
qed

lemma feed_spec:
  "readyOpen w \<Longrightarrow> 0 < frameSize w \<Longrightarrow> feed w chunks = (w', sent) \<Longrightarrow>
   concat sent @ stdoutBuffer w' = stdoutBuffer w @ concat chunks
   \<and> (\<forall>f \<in> set sent. length f = frameSize w)
   \<and> (chunks \<noteq> [] \<longrightarrow> length (stdoutBuffer w') < frameSize w)"
proof (induction chunks arbitrary: w w' sent)
  case Nil
  then show ?case by simp
next
  case (Cons chunk chunks)
  obtain w1 sent1 where s1: "on_stdout w chunk = (w1, sent1)" by (cases "on_stdout w chunk")
  obtain w2 sent2 where s2: "feed w1 chunks = (w2, sent2)" by (cases "feed w1 chunks")
  note a = on_stdout_spec [OF Cons.prems(1,2) s1]
  have b: "concat sent2 @ stdoutBuffer w2 = stdoutBuffer w1 @ concat chunks
           \<and> (\<forall>f \<in> set sent2. length f = frameSize w1)
           \<and> (chunks \<noteq> [] \<longrightarrow> length (stdoutBuffer w2) < frameSize w1)"
    using a Cons.prems(2) by (intro Cons.IH [OF _ _ s2]) simp_all
  have r: "w' = w2" "sent = sent1 @ sent2" using Cons.prems(3) s1 s2 by simp_all
  have "concat sent @ stdoutBuffer w' = concat sent1 @ (concat sent2 @ stdoutBuffer w2)"
    using r by simp
  also have "\<dots> = concat sent1 @ stdoutBuffer w1 @ concat chunks" using b by simp
  also have "\<dots> = stdoutBuffer w @ concat (chunk # chunks)" using a by simp
  finally have c: "concat sent @ stdoutBuffer w' = stdoutBuffer w @ concat (chunk # chunks)" .
  have d: "length (stdoutBuffer w') < frameSize w"
  proof (cases chunks)
    case Nil
    then have "w2 = w1" using s2 by simp
    then show ?thesis using a r by simp
  next
    case (Cons c cs)
    then show ?thesis using a b r by simp
  qed
  from a b c d r show ?case by auto
qed

lemma blocks_unique:
  "\<forall>a \<in> set A. length a = F \<Longrightarrow> \<forall>b \<in> set B. length b = F \<Longrightarrow>
   length r < F \<Longrightarrow> length r' < F \<Longrightarrow> concat A @ r = concat B @ r' \<Longrightarrow>
   A = B \<and> r = r'"
proof (induction A arbitrary: B)
  case Nil
  show ?case
  proof (cases B)
    case Nil
    then show ?thesis using Nil.prems by simp
  next
    case (Cons b B')
    then have "length r = length (concat B @ r')" using Nil.prems(5) by simp
    then have "F \<le> length r" using Cons Nil.prems(2) by simp
    then show ?thesis using Nil.prems(3) by simp
  qed
next
  case (Cons a A)
  show ?case
  proof (cases B)
    case Nil
    then have "length r' = length (concat (a # A) @ r)" using Cons.prems(5) by simp
    then have "F \<le> length r'" using Cons.prems(1) by simp
    then show ?thesis using Cons.prems(4) by simp
  next
    case (Cons b B')
    have "length a = length b" using Cons Cons.prems(1,2) by simp
    then have "a = b \<and> concat A @ r = concat B' @ r'"
      using Cons.prems(5) Cons by simp
    then show ?thesis using Cons.IH [of B'] Cons Cons.prems by simp
  qed
qed

lemma frame_bytes_length:
  "(\<And>x. length (enc x) = 4) \<Longrightarrow> length (frame_bytes enc cells) = 4 * length cells"
  by (induction cells) (simp_all add: frame_bytes_def)

lemma startEngine_ws:
  "stdoutBuffer (ws (startEngine r cfg)) = [] \<and> frameSize (ws (startEngine r cfg)) = 0
   \<and> readyOpen (ws (startEngine r cfg)) = readyOpen (ws r)
   \<and> engineProc (ws (startEngine r cfg)) = Some (length (procs r))"
  by (simp add: startEngine_def stopEngine_def Let_def kill_def split: option.split)

text \<open>
  C5, at a restart. The client starts an engine on a grid of one cell (frames of 4 bytes) and
  starts again before the first frame has arrived: \<^verbatim>\<open>startEngine\<close> calls \<^verbatim>\<open>kill()\<close> on process 0,
  empties the buffer and spawns process 1. Two bytes that process 0 had written arrive after
  that; the handler of \<^verbatim>\<open>stdout\<close>, which does not look at the process, appends them to the
  buffer. Then process 1 writes its header and its first frames, \<open>[3, 4, 5, 6]\<close> and
  \<open>[7, 8, 9, 10]\<close>. The relay sends \<open>[1, 2, 3, 4]\<close> and \<open>[5, 6, 7, 8]\<close>: two bytes of the
  process that was killed merged with the first two bytes of a frame of the new engine, and
  every frame after that is cut two bytes early.
\<close>

theorem stale_chunk_merged:
  "snd (session_run
          [Relay (Ws_message (Msg_start ())), Relay (Ws_message (Msg_start ())),
           Stdout_chunk 0 [1, 2], Stderr_header 1 1 1,
           Stdout_chunk 1 [3, 4, 5, 6], Stdout_chunk 1 [7, 8, 9, 10]])
     = [[1, 2, 3, 4], [5, 6, 7, 8]]
   \<and> procs (fst (session_run
          [Relay (Ws_message (Msg_start ())), Relay (Ws_message (Msg_start ())),
           Stdout_chunk 0 [1, 2], Stderr_header 1 1 1,
           Stdout_chunk 1 [3, 4, 5, 6], Stdout_chunk 1 [7, 8, 9, 10]]))
     = [Kill_sent, Running]
   \<and> engineProc (ws (fst (session_run
          [Relay (Ws_message (Msg_start ())), Relay (Ws_message (Msg_start ())),
           Stdout_chunk 0 [1, 2], Stderr_header 1 1 1,
           Stdout_chunk 1 [3, 4, 5, 6], Stdout_chunk 1 [7, 8, 9, 10]])))
     = Some 1"
  by (simp add: session_run_def startEngine_def stopEngine_def connect_def kill_def
      on_stdout_def on_header_def drain.simps Let_def)

text \<open>
  One run of an engine. Every frame the engine writes has \<open>nx * ny\<close> cells, so \<open>nx * ny * 4\<close>
  bytes in any encoding \<open>enc\<close> of a float in 4 bytes. The relay, after \<^verbatim>\<open>startEngine\<close>, is fed
  the output of that engine and no other, in chunks cut anywhere, some of them possibly before
  the header has set the frame size (these are kept and nothing is sent), the others after it.
  If the chunks add up to the first \<open>m\<close> frames followed by less than a frame, the relay has
  sent exactly these \<open>m\<close> frames, each whole and of \<open>nx * ny * 4\<close> bytes, and holds the rest in
  its buffer. The socket is open.
\<close>

theorem frames_whole:
  assumes enc: "\<And>x. length (enc x) = 4"
    and dims: "0 < p_nx P" "0 < p_ny P"
    and run: "run_steps P h_c h_sponge k = (st, ev, crashed)"
    and opn: "readyOpen (ws r)"
    and early: "feed (ws (startEngine r cfg)) early_chunks = (w1, sent1)"
    and fed: "feed (on_header w1 (nat (p_nx P)) (nat (p_ny P))) chunks = (w2, sent2)"
    and some: "chunks \<noteq> []"
    and recv: "concat (early_chunks @ chunks)
               = concat (map (frame_bytes enc) (take m (frames_of ev))) @ partial"
    and part: "length partial < nat (p_nx P * p_ny P * 4)"
  shows "(\<forall>f \<in> set (frames_of ev). length (frame_bytes enc f) = nat (p_nx P * p_ny P * 4))
         \<and> sent1 = []
         \<and> sent2 = map (frame_bytes enc) (take m (frames_of ev))
         \<and> (\<forall>b \<in> set sent2. length b = nat (p_nx P * p_ny P * 4))
         \<and> stdoutBuffer w2 = partial"
proof -
  let ?F = "nat (p_nx P * p_ny P * 4)"
  let ?w0 = "on_header w1 (nat (p_nx P)) (nat (p_ny P))"
  have F: "?F = nat (p_nx P) * nat (p_ny P) * 4" "?F = 4 * nat (p_nx P * p_ny P)"
    using dims by (simp_all add: nat_mult_distrib)
  have Fpos: "0 < ?F" using dims by simp
  have w1: "sent1 = []" "stdoutBuffer w1 = concat early_chunks" "readyOpen w1"
    using feed_waiting [OF _ _ early] startEngine_ws [of r cfg] opn by simp_all
  have w0: "readyOpen ?w0" "frameSize ?w0 = ?F" "stdoutBuffer ?w0 = concat early_chunks"
    using w1 F(1) by (simp_all add: on_header_def)
  have eng: "\<forall>f \<in> set (frames_of ev). length (frame_bytes enc f) = ?F"
    using run_steps_lengths [OF run] F(2) by (simp add: frame_bytes_length [OF enc])
  have fs: "concat sent2 @ stdoutBuffer w2 = concat (early_chunks @ chunks)"
    "\<forall>f \<in> set sent2. length f = ?F" "length (stdoutBuffer w2) < ?F"
    using feed_spec [OF w0(1) _ fed] w0(2,3) Fpos some by simp_all
  have blocks: "\<forall>b \<in> set (map (frame_bytes enc) (take m (frames_of ev))). length b = ?F"
    using eng by (auto dest: in_set_takeD)
  have "sent2 = map (frame_bytes enc) (take m (frames_of ev)) \<and> stdoutBuffer w2 = partial"
    using fs(1) recv by (intro blocks_unique [OF fs(2) blocks fs(3) part]) simp
  with eng fs(2) w1(1) show ?thesis by simp
qed

theorem frames_whole_witness:
  "snd (feed (on_header (fst (feed (ws (startEngine (connect :: unit relay) ())) [[0, 0, 0]]))
                 (nat 1) (nat 1))
         [[0, 0, 9]]) = [[0, 0, 0, 0]]
   \<and> stdoutBuffer (fst (feed (on_header (fst (feed (ws (startEngine (connect :: unit relay) ()))
                                              [[0, 0, 0]])) (nat 1) (nat 1))
         [[0, 0, 9]])) = [0, 9]"
proof -
  let ?P = "default_Params\<lparr>p_nx := 1, p_ny := 1, p_frames_every := 1\<rparr>"
  let ?R = "run_steps ?P [3000] [0] 1"
  let ?enc = "\<lambda>x :: real. [0, 0, 0, 0 :: byte]"
  let ?e = "feed (ws (startEngine (connect :: unit relay) ())) [[0, 0, 0]]"
  let ?fd = "feed (on_header (fst ?e) (nat (p_nx ?P)) (nat (p_ny ?P))) [[0, 0, 9]]"
  have r: "?R = (fst ?R, fst (snd ?R), snd (snd ?R))" by simp
  have e: "?e = (fst ?e, snd ?e)" by simp
  have f: "?fd = (fst ?fd, snd ?fd)" by simp
  have fe: "p_frames_every ?P \<noteq> 0" by simp
  have n: "length (frames_of (fst (snd ?R))) = 1"
    using run_steps_frames_count [OF fe r] by simp
  then obtain fr where fr: "frames_of (fst (snd ?R)) = [fr]"
    by (cases "frames_of (fst (snd ?R))") simp_all
  have "length fr = 1" using run_steps_lengths [OF r] fr by simp
  then obtain x where x: "fr = [x]" by (cases fr) simp_all
  have recv: "concat ([[0, 0, 0]] @ [[0, 0, 9 :: byte]])
              = concat (map (frame_bytes ?enc) (take 1 (frames_of (fst (snd ?R))))) @ [0, 9]"
    unfolding fr x by (simp add: frame_bytes_def)
  have "snd ?fd = map (frame_bytes ?enc) (take 1 (frames_of (fst (snd ?R))))
        \<and> stdoutBuffer (fst ?fd) = [0, 9]"
    using frames_whole [of ?enc ?P "[3000]" "[0]" 1 "fst ?R" "fst (snd ?R)" "snd (snd ?R)"
        "connect :: unit relay" "()" "[[0, 0, 0]]" "fst ?e" "snd ?e" "[[0, 0, 9]]"
        "fst ?fd" "snd ?fd" 1 "[0, 9]", OF _ _ _ r _ e f _ recv]
    by (simp add: connect_def)
  then show ?thesis unfolding fr x by (simp add: frame_bytes_def)
qed

section \<open>The relay: one engine per session\<close>

lemma handle_inv_connect: "handle_inv connect"
  by (simp add: handle_inv_def connect_def)

lemma handle_inv_stop: "handle_inv r \<Longrightarrow> handle_inv (stopEngine r)"
  by (auto simp: handle_inv_def stopEngine_def kill_def Let_def nth_list_update
      split: option.splits)

lemma stop_no_running:
  "handle_inv r \<Longrightarrow> q < length (procs (stopEngine r)) \<Longrightarrow> procs (stopEngine r) ! q \<noteq> Running"
  by (auto simp: handle_inv_def stopEngine_def kill_def Let_def nth_list_update
      split: option.splits)

lemma handle_inv_start: "handle_inv r \<Longrightarrow> handle_inv (startEngine r cfg)"
  by (auto simp: handle_inv_def startEngine_def stopEngine_def kill_def Let_def nth_list_update
      nth_append split: option.splits)

lemma handle_inv_exit: "handle_inv r \<Longrightarrow> handle_inv (on_exit r p)"
  by (auto simp: handle_inv_def on_exit_def Let_def nth_list_update)

lemma handle_inv_step: "handle_inv r \<Longrightarrow> handle_inv (relay_step r e)"
proof (cases e)
  case (Ws_message msg)
  assume "handle_inv r"
  then show ?thesis using Ws_message
    by (cases msg) (simp_all add: handle_inv_start handle_inv_stop)
next
  case Ws_close
  assume "handle_inv r"
  then have "handle_inv (stopEngine r)" by (rule handle_inv_stop)
  then show ?thesis using Ws_close by (simp add: handle_inv_def)
next
  case (Engine_exit p)
  assume "handle_inv r"
  then show ?thesis using Engine_exit by (simp add: handle_inv_exit)
qed

lemma handle_inv_run: "handle_inv (relay_run evs)"
  unfolding relay_run_def
  by (induction evs rule: rev_induct) (simp_all add: handle_inv_connect handle_inv_step)

text \<open>
  C7 as stated fails: \<^verbatim>\<open>startEngine\<close> calls \<^verbatim>\<open>stopEngine\<close>, which sends the signal and clears the
  handle, and spawns the new process at once; nothing waits for the \<^verbatim>\<open>exit\<close> event of the
  old one. After two start commands the first process has been sent the signal and has not
  ended, and the second is running: two live processes of one session.
\<close>

theorem two_live_counterexample:
  "procs (relay_run [Ws_message (Msg_start ()), Ws_message (Msg_start ())]) = [Kill_sent, Running]
   \<and> live (procs (relay_run [Ws_message (Msg_start ()), Ws_message (Msg_start ())])) = [0, 1]"
  by (simp add: relay_run_def startEngine_def stopEngine_def kill_def connect_def Let_def
      live_def upt_rec)

text \<open>
  C7, amended. In every reachable state the process of the handle is the only one that is
  running without having been sent the signal. A start command issued while the handle is set
  calls \<^verbatim>\<open>kill\<close> on that process and then \<^verbatim>\<open>spawn\<close>, in this order; afterwards the prior process
  is in the state of a process that was sent the signal (its end is not awaited), the new one
  is the handle's and is the only one running without a signal.
\<close>

theorem restart_requests_termination:
  assumes reach: "r = relay_run evs" and active: "engineProc (ws r) = Some p"
  shows "(\<forall>q < length (procs r). procs r ! q = Running \<longleftrightarrow> q = p)
         \<and> actions (relay_step r (Ws_message (Msg_start cfg)))
             = actions r @ [Kill p, Spawn (length (procs r)) cfg]
         \<and> procs (relay_step r (Ws_message (Msg_start cfg)))
             = (procs r)[p := Kill_sent] @ [Running]
         \<and> engineProc (ws (relay_step r (Ws_message (Msg_start cfg)))) = Some (length (procs r))
         \<and> (\<forall>q < length (procs (relay_step r (Ws_message (Msg_start cfg)))).
               procs (relay_step r (Ws_message (Msg_start cfg))) ! q = Running
               \<longleftrightarrow> q = length (procs r))"
proof -
  have inv: "handle_inv r" unfolding reach by (rule handle_inv_run)
  then have p: "p < length (procs r)" "procs r ! p = Running"
    using active by (auto simp: handle_inv_def)
  have 1: "\<forall>q < length (procs r). procs r ! q = Running \<longleftrightarrow> q = p"
    using inv active by (auto simp: handle_inv_def)
  have 2: "actions (startEngine r cfg) = actions r @ [Kill p, Spawn (length (procs r)) cfg]"
    using active by (simp add: startEngine_def stopEngine_def kill_def Let_def)
  have 3: "procs (startEngine r cfg) = (procs r)[p := Kill_sent] @ [Running]"
    using active p by (simp add: startEngine_def stopEngine_def kill_def Let_def)
  have 4: "engineProc (ws (startEngine r cfg)) = Some (length (procs r))"
    using startEngine_ws [of r cfg] by simp
  have "handle_inv (startEngine r cfg)" using inv by (rule handle_inv_start)
  then have 5: "\<forall>q < length (procs (startEngine r cfg)).
                  procs (startEngine r cfg) ! q = Running \<longleftrightarrow> q = length (procs r)"
    using 4 by (auto simp: handle_inv_def)
  from 1 2 3 4 5 show ?thesis by simp
qed

theorem restart_requests_termination_witness:
  "engineProc (ws (relay_run [Ws_message (Msg_start (1::nat))])) = Some 0
   \<and> actions (relay_step (relay_run [Ws_message (Msg_start (1::nat))]) (Ws_message (Msg_start 2)))
       = [Spawn 0 1, Kill 0, Spawn 1 2]
   \<and> procs (relay_step (relay_run [Ws_message (Msg_start (1::nat))]) (Ws_message (Msg_start 2)))
       = [Kill_sent, Running]"
proof -
  let ?r = "relay_run [Ws_message (Msg_start (1::nat))]"
  have a: "engineProc (ws ?r) = Some 0"
    by (simp add: relay_run_def startEngine_def stopEngine_def connect_def Let_def)
  have b: "actions ?r = [Spawn 0 1]" "procs ?r = [Running]"
    by (simp_all add: relay_run_def startEngine_def stopEngine_def connect_def Let_def)
  from restart_requests_termination [OF refl a, of 2] a b show ?thesis by simp
qed


section \<open>Further properties\<close>

lemma parse_one_ok:
  assumes "parse_one stof p a rest = Inr p'"
  shows "a \<in> set option_names \<and> rest \<noteq> [] \<and> value_parses stof a (hd rest)"
proof -
  have "a \<in> set option_names"
    using assms by (auto simp: parse_one_def option_names_def int_options_def float_options_def
        split: if_splits)
  moreover have ne: "rest \<noteq> []"
    using assms
    by (auto simp: parse_one_def assign_def stoi_need_def stof_need_def need_def
        split: if_splits)
  moreover have "value_parses stof a (hd rest)"
  proof -
    obtain v r where r: "rest = v # r" using ne by (cases rest) simp_all
    show ?thesis
      using assms unfolding r
      by (auto simp: parse_one_def assign_def stoi_need_def stof_need_def need_def
          value_parses_def int_options_def float_options_def
          split: if_splits sum.splits)
  qed
  ultimately show ?thesis by simp
qed

lemma parse_loop_ok:
  "parse_loop stof p args = Inr p' \<Longrightarrow>
   even (length args)
   \<and> (\<forall>k. 2 * k < length args \<longrightarrow>
         args ! (2 * k) \<in> set option_names
         \<and> value_parses stof (args ! (2 * k)) (args ! Suc (2 * k)))"
proof (induction args arbitrary: p rule: induct_list012)
  case 1
  then show ?case by simp
next
  case (2 a)
  then show ?case using parse_one_ok [of stof p a "[]"] by (auto split: sum.splits)
next
  case (3 a v rest)
  obtain p1 where p1: "parse_one stof p a (v # rest) = Inr p1" and
    rec: "parse_loop stof p1 rest = Inr p'"
    using 3(3) by (auto split: sum.splits)
  note one = parse_one_ok [OF p1]
  note ih = 3(1) [OF rec]
  have "(a # v # rest) ! (2 * k) \<in> set option_names
        \<and> value_parses stof ((a # v # rest) ! (2 * k)) ((a # v # rest) ! Suc (2 * k))"
    if "2 * k < length (a # v # rest)" for k
  proof (cases k)
    case 0
    then show ?thesis using one by simp
  next
    case (Suc k')
    then have "2 * k' < length rest" using that by simp
    then show ?thesis using ih Suc by simp
  qed
  then show ?case using ih by simp
qed

text \<open>
  A command line is fatal as soon as, at one of its option places (the even places), it has a
  name that is no option, an option without a value after it, or a numeric option whose value
  does not parse: the parser returns no configuration, and the process ends before the header
  and the first step, through \<^verbatim>\<open>die\<close> (one diagnostic, exit status 1) or through an exception
  that nothing catches.
\<close>

theorem bad_command_line_fatal:
  assumes "2 * k < length args"
    and "args ! (2 * k) \<notin> set option_names \<or> Suc (2 * k) = length args
         \<or> \<not> value_parses stof (args ! (2 * k)) (args ! Suc (2 * k))"
  shows "\<exists>f. parse_args stof args = Inl f
           \<and> main stof args = (case f of Die m \<Rightarrow> ([Diagnostic m], Exit 1)
                                 | Uncaught e \<Rightarrow> ([], Terminated e))"
proof -
  have "\<not> (\<exists>p. parse_loop stof default_Params args = Inr p)"
  proof
    assume "\<exists>p. parse_loop stof default_Params args = Inr p"
    then obtain p where "parse_loop stof default_Params args = Inr p" ..
    from parse_loop_ok [OF this] assms(1)
    have ev: "even (length args)"
      and ok: "args ! (2 * k) \<in> set option_names
               \<and> value_parses stof (args ! (2 * k)) (args ! Suc (2 * k))"
      by auto
    have "Suc (2 * k) \<noteq> length args" using ev by presburger
    with ok assms(2) show False by simp
  qed
  then obtain f where f: "parse_loop stof default_Params args = Inl f"
    by (cases "parse_loop stof default_Params args") auto
  then have "parse_args stof args = Inl f" by (simp add: parse_args_def)
  then show ?thesis by (cases f) (simp_all add: main_def)
qed

theorem bad_command_line_fatal_witness:
  "main stof [''--foo''] = ([Diagnostic ''Unknown arg: --foo''], Exit 1)
   \<and> main stof [''--nx''] = ([Diagnostic ''Missing value''], Exit 1)"
proof -
  have a: "parse_args stof [''--foo''] = Inl (Die ''Unknown arg: --foo'')"
    by (simp add: parse_args_def parse_one_def)
  have b: "parse_args stof [''--nx''] = Inl (Die ''Missing value'')"
    by (simp add: parse_args_def parse_one_def stoi_need_def need_def assign_def)
  have "''--foo'' \<notin> set option_names"
    by (simp add: option_names_def int_options_def float_options_def)
  then show ?thesis
    using bad_command_line_fatal [of 0 "[''--foo'']" stof]
      bad_command_line_fatal [of 0 "[''--nx'']" stof] a b
    by auto
qed

lemma reduce_round_length: "length (reduce_round s sd) = length sd"
  by (simp add: reduce_round_def)

lemma reduce_round_sum:
  assumes "2 * s \<le> length sd"
  shows "(\<Sum>t < s. reduce_round s sd ! t) = (\<Sum>t<2 * s. sd ! t)"
proof -
  have "(\<Sum>t < s. reduce_round s sd ! t) = (\<Sum>t < s. sd ! t + sd ! (t + s))"
    using assms by (intro sum.cong) (simp_all add: reduce_round_def)
  also have "\<dots> = (\<Sum>t < s. sd ! t) + (\<Sum>t < s. sd ! (t + s))"
    by (rule sum.distrib)
  also have "(\<Sum>t < s. sd ! (t + s)) = (\<Sum>t=s..<2 * s. sd ! t)"
    using sum.shift_bounds_nat_ivl [of "\<lambda>t. sd ! t" 0 s s]
    by (simp add: lessThan_atLeast0 mult_2)
  also have "(\<Sum>t < s. sd ! t) + (\<Sum>t=s..<2 * s. sd ! t) = (\<Sum>t<2 * s. sd ! t)"
    using sum.atLeastLessThan_concat [of 0 s "2 * s" "\<lambda>t. sd ! t"]
    by (simp add: lessThan_atLeast0)
  finally show ?thesis .
qed

lemma tree_reduce_sum:
  "2 * 2 ^ k \<le> length sd \<Longrightarrow> tree_reduce (2 ^ k) sd ! 0 = (\<Sum>t<2 * 2 ^ k. sd ! t)"
proof (induction k arbitrary: sd)
  case 0
  have "2 \<le> length sd" using 0 by simp
  then have l: "0 < length sd" "1 < length sd" by linarith+
  have "tree_reduce (2 ^ 0) sd = reduce_round 1 sd"
    by (simp add: tree_reduce.simps)
  moreover have "reduce_round 1 sd ! 0 = sd ! 0 + sd ! 1"
    using l by (simp add: reduce_round_def)
  moreover have "(\<Sum>t<2 * 2 ^ 0. sd ! t) = sd ! 0 + sd ! 1"
    by (simp add: numeral_2_eq_2)
  ultimately show ?case by simp
next
  case (Suc k)
  let ?sd = "reduce_round (2 ^ Suc k) sd"
  have step: "tree_reduce (2 ^ Suc k) sd = tree_reduce (2 ^ k) ?sd"
    by (subst tree_reduce.simps) simp
  have len: "2 * 2 ^ k \<le> length ?sd" using Suc.prems by (simp add: reduce_round_length)
  have "tree_reduce (2 ^ k) ?sd ! 0 = (\<Sum>t<2 * 2 ^ k. ?sd ! t)"
    by (rule Suc.IH [OF len])
  also have "\<dots> = (\<Sum>t<2 ^ Suc k. ?sd ! t)" by simp
  also have "\<dots> = (\<Sum>t<2 * 2 ^ Suc k. sd ! t)"
    by (rule reduce_round_sum [OF Suc.prems])
  finally show ?case using step by simp
qed

lemma sum_energy_block_eq:
  "sum_energy_block u N 256 b
   = (\<Sum>i = b * 256..<b * 256 + 256. if i < N then u ! i * u ! i else 0)"
proof -
  let ?f = "\<lambda>i. if i < N then u ! i * u ! i else 0"
  let ?sd = "map (\<lambda>tid. ?f (b * 256 + tid)) [0..<256]"
  have "tree_reduce (2 ^ 7) ?sd ! 0 = (\<Sum>t<2 * 2 ^ 7. ?sd ! t)"
    by (rule tree_reduce_sum) simp
  also have "\<dots> = (\<Sum>t<256. ?f (b * 256 + t))"
    by (intro sum.cong) simp_all
  also have "\<dots> = (\<Sum>t<256. ?f (t + b * 256))"
    by (simp only: add.commute [of "b * 256"])
  also have "\<dots> = (\<Sum>t = 0..<256. ?f (t + b * 256))"
    by (simp only: lessThan_atLeast0)
  also have "\<dots> = sum ?f {0 + b * 256..<256 + b * 256}"
    by (rule sum.shift_bounds_nat_ivl [symmetric])
  also have "\<dots> = (\<Sum>i = b * 256..<b * 256 + 256. ?f i)"
    by (simp add: add.commute)
  finally show ?thesis
    by (simp add: sum_energy_block_def Let_def)
qed

lemma fold_add_sum: "fold (\<lambda>b acc. acc + g b) [0..<n] (a::real) = a + (\<Sum>b<n. g b)"
  by (induction n) simp_all

lemma sum_energy_eq: "N \<le> length u \<Longrightarrow> sum_energy u N = (\<Sum>i<N. (u ! i)\<^sup>2)"
proof -
  let ?f = "\<lambda>i. if i < N then u ! i * u ! i else 0"
  let ?B = "(N + 256 - 1) div 256"
  have cover: "N \<le> ?B * 256" by simp
  have "sum_energy u N = 0 + (\<Sum>b<?B. sum_energy_block u N 256 b)"
    unfolding sum_energy_def Let_def ENERGY_THREADS_def by (rule fold_add_sum)
  also have "\<dots> = (\<Sum>b<?B. \<Sum>i = b * 256..<b * 256 + 256. ?f i)"
    by (simp only: sum_energy_block_eq add_0)
  also have "\<dots> = (\<Sum>i<?B * 256. ?f i)" by (rule sum.nat_group)
  also have "\<dots> = (\<Sum>i<N. ?f i)"
    using cover by (intro sum.mono_neutral_right) auto
  also have "\<dots> = (\<Sum>i<N. (u ! i)\<^sup>2)"
    by (intro sum.cong) (simp_all add: power2_eq_square)
  finally show ?thesis .
qed

text \<open>
  The energy that is reported is the sum of the squares of the cells: the blocks of 256
  threads, each reduced as a tree in shared memory, add up to the sum over the \<open>N\<close> cells.
\<close>

theorem energy_is_sum_of_squares:
  "N \<le> length u \<Longrightarrow> sum_energy u N = (\<Sum>i<N. (u ! i)\<^sup>2)"
  by (rule sum_energy_eq)

theorem energy_is_sum_of_squares_witness:
  "(2::nat) \<le> length [1, 2 :: real] \<and> sum_energy [1, 2] 2 = 5"
  using energy_is_sum_of_squares [of 2 "[1, 2]"] by (simp add: numeral_2_eq_2)

text \<open>
  \<^verbatim>\<open>stopEngine\<close> leaves the buffers empty, the frame size 0 and the handle cleared, whether or
  not an engine was running, and a chunk of output that arrives then is not forwarded.
\<close>

theorem stop_clears_buffers:
  "stdoutBuffer (ws (stopEngine r)) = [] \<and> stderrBuffer (ws (stopEngine r)) = []
   \<and> frameSize (ws (stopEngine r)) = 0 \<and> engineProc (ws (stopEngine r)) = None
   \<and> snd (on_stdout (ws (stopEngine r)) chunk) = []"
  by (simp add: stopEngine_def on_stdout_def Let_def split: option.split)

text \<open>
  The bound of the time step as the engine computes it is \<open>cfl * dx / (sqrt 2 * c0)\<close> to one
  part in \<open>2 ^ 21\<close>, when the two products and the quotient are in the normal range of single
  precision (at least \<open>2 ^ - 126\<close>). With no option given the bound is \<open>4555501 / 2 ^ 33\<close>.
\<close>

theorem dtmax_near_exact:
  assumes "2 powr (- 126) \<le> p_cfl P * p_dx P"
    and "2 powr (- 126) \<le> round32 (sqrt 2) * p_c0 P"
    and "2 powr (- 126) \<le> round32 (p_cfl P * p_dx P) / round32 (round32 (sqrt 2) * p_c0 P)"
  shows "\<exists>B. dtmax P = Some B
           \<and> (1 - 1 / 2 ^ 21) * (p_cfl P * p_dx P / (sqrt 2 * p_c0 P)) \<le> B
           \<and> B \<le> (1 + 1 / 2 ^ 21) * (p_cfl P * p_dx P / (sqrt 2 * p_c0 P))"
proof -
  define B where
    "B = round32 (round32 (p_cfl P * p_dx P) / round32 (round32 (sqrt 2) * p_c0 P))"
  define l :: real where "l = 1 - 1 / 2 ^ 24"
  define h :: real where "h = 1 + 1 / 2 ^ 24"
  define a where "a = p_cfl P * p_dx P"
  define c where "c = p_c0 P"
  define s where "s = round32 (sqrt 2)"
  define a' where "a' = round32 a"
  define b' where "b' = round32 (s * c)"
  note tiny = powr_gt_zero [of 2 "- 126"]
  have lh: "0 < l" "l \<le> h" by (simp_all add: l_def h_def)
  have hpos: "0 < h" using lh by simp
  have apos: "0 < a" using assms(1) tiny unfolding a_def by linarith
  have s: "s = 11863283 / 8388608" unfolding s_def by (rule sqrt2_float)
  have spos: "0 < s" by (simp add: s)
  have scpos: "0 < s * c" using assms(2) tiny unfolding s_def c_def by linarith
  then have cpos: "0 < c" using spos by (simp add: zero_less_mult_iff)
  have "2 powr (- 126) \<le> sqrt 2"
  proof -
    have "2 powr (- 126) \<le> (1::real)" by (simp add: powr_neg_numeral)
    also have "\<dots> \<le> sqrt 2" by simp
    finally show ?thesis .
  qed
  then have sb: "l * sqrt 2 \<le> s" "s \<le> h * sqrt 2"
    using round32_pos [of "sqrt 2"] by (simp_all add: s_def l_def h_def)
  have ab: "l * a \<le> a'" "a' \<le> h * a"
    using round32_pos [of a] assms(1) by (simp_all add: a_def a'_def l_def h_def)
  have bb: "l * (s * c) \<le> b'" "b' \<le> h * (s * c)"
    using round32_pos [of "s * c"] assms(2) by (simp_all add: s_def c_def b'_def l_def h_def)
  have q: "l / h * (a / (s * c)) \<le> a' / b'" "a' / b' \<le> h / l * (a / (s * c))"
    using quotient_bounds [OF apos scpos lh ab bb] by simp_all
  have "0 < l * (s * c)" using lh scpos by simp
  then have "b' \<noteq> 0" using bb(1) by linarith
  then have dt: "dtmax P = Some B"
    by (simp add: dtmax_sqrt2 B_def b'_def s_def c_def)
  have db: "l * (a' / b') \<le> B" "B \<le> h * (a' / b')"
    using round32_pos [of "a' / b'"] assms(3)
    by (simp_all add: B_def a'_def b'_def a_def s_def c_def l_def h_def)
  define E where "E = a / (sqrt 2 * c)"
  have Epos: "0 \<le> E" using apos cpos by (simp add: E_def)
  have sc: "a / (s * c) \<le> E / l" "E / h \<le> a / (s * c)"
  proof -
    have "a / (s * c) \<le> a / (l * sqrt 2 * c)"
      using sb(1) apos cpos lh spos
      by (intro divide_left_mono mult_right_mono mult_pos_pos) simp_all
    then show "a / (s * c) \<le> E / l" by (simp add: E_def field_simps)
    have "a / (h * sqrt 2 * c) \<le> a / (s * c)"
      using sb(2) apos cpos lh spos
      by (intro divide_left_mono mult_right_mono mult_pos_pos) simp_all
    then show "E / h \<le> a / (s * c)" by (simp add: E_def field_simps)
  qed
  have "B \<le> h * (a' / b')" by (rule db(2))
  also have "\<dots> \<le> h * (h / l * (a / (s * c)))"
    using q(2) hpos by (intro mult_left_mono) simp_all
  also have "\<dots> \<le> h * (h / l * (E / l))"
    using sc(1) hpos lh by (intro mult_left_mono) simp_all
  also have "\<dots> = (h * h / (l * l)) * E" by simp
  also have "\<dots> \<le> (1 + 1 / 2 ^ 21) * E"
    using Epos by (intro mult_right_mono) (simp_all add: l_def h_def)
  finally have up: "B \<le> (1 + 1 / 2 ^ 21) * E" .
  have "(1 - 1 / 2 ^ 21) * E \<le> (l * l / (h * h)) * E"
    using Epos by (intro mult_right_mono) (simp_all add: l_def h_def)
  also have "\<dots> = l * (l / h * (E / h))" by simp
  also have "\<dots> \<le> l * (l / h * (a / (s * c)))"
    using sc(2) hpos lh by (intro mult_left_mono) simp_all
  also have "\<dots> \<le> l * (a' / b')"
    using q(1) lh by (intro mult_left_mono) simp_all
  also have "\<dots> \<le> B" by (rule db(1))
  finally have dn: "(1 - 1 / 2 ^ 21) * E \<le> B" .
  from up dn dt show ?thesis by (simp add: E_def a_def c_def)
qed

theorem dtmax_near_exact_witness:
  "dtmax (center_source default_Params) = Some (4555501 / 2 ^ 33)
   \<and> (1 - 1 / 2 ^ 21) * (0.45 * 5 / (sqrt 2 * 3000)) \<le> (4555501 / 2 ^ 33 :: real)
   \<and> (4555501 / 2 ^ 33 :: real) \<le> (1 + 1 / 2 ^ 21) * (0.45 * 5 / (sqrt 2 * 3000))"
proof -
  let ?P0 = "center_source default_Params"
  have f: "p_cfl ?P0 = 0.45" "p_dx ?P0 = 5" "p_c0 ?P0 = 3000"
    by (simp_all add: center_source_fields default_Params_def CFL_DEFAULT_def)
  have d: "dtmax ?P0 = Some (4555501 / 2 ^ 33)"
    unfolding dtmax_sqrt2 default_dtmax [OF f] unfolding f sqrt2_float default_divisor by simp
  have h1: "2 powr (- 126) \<le> p_cfl ?P0 * p_dx ?P0"
    unfolding f by (simp add: powr_neg_numeral)
  have h2: "2 powr (- 126) \<le> round32 (sqrt 2) * p_c0 ?P0"
    unfolding f sqrt2_float by (simp add: powr_neg_numeral)
  have h3: "2 powr (- 126)
            \<le> round32 (p_cfl ?P0 * p_dx ?P0) / round32 (round32 (sqrt 2) * p_c0 ?P0)"
    unfolding f sqrt2_float default_numerator default_divisor by (simp add: powr_neg_numeral)
  from dtmax_near_exact [OF h1 h2 h3] obtain B where
    b: "dtmax ?P0 = Some B"
      "(1 - 1 / 2 ^ 21) * (p_cfl ?P0 * p_dx ?P0 / (sqrt 2 * p_c0 ?P0)) \<le> B"
      "B \<le> (1 + 1 / 2 ^ 21) * (p_cfl ?P0 * p_dx ?P0 / (sqrt 2 * p_c0 ?P0))"
    by blast
  have "B = 4555501 / 2 ^ 33" using b(1) unfolding d by simp
  then show ?thesis using b(2,3) d unfolding f by simp
qed

lemma fill_two_layer_nth:
  assumes "0 \<le> i" "i < p_nx p" "0 \<le> j" "j < p_ny p"
    and len: "length cf = nat (p_nx p * p_ny p)"
  shows "fill_two_layer p cf ! nat (j * p_nx p + i)
         = (if j \<ge> c_div (p_ny p) 2 then p_c0 p * 1.5 else p_c0 p)"
proof -
  let ?nx = "p_nx p" and ?ny = "p_ny p"
  let ?k = "nat (j * ?nx + i)"
  let ?v = "\<lambda>j. if j \<ge> c_div ?ny 2 then p_c0 p * 1.5 else p_c0 p"
  let ?f = "\<lambda>(i, j) cf. cf[nat (j * ?nx + i) := ?v j]"
  let ?ts = "concat (map (\<lambda>j. map (\<lambda>i. (i, j)) [0..?nx - 1]) [0..?ny - 1])"
  have k: "?k < length cf" using grid_index_bound [OF assms(1-4)] len by simp
  have unfold: "fill_two_layer p cf = fold ?f ?ts cf"
    by (simp add: fill_two_layer_def for_range_eq fold_nested Let_def)
  have mem: "(i, j) \<in> set ?ts" using assms(1-4) unfolding cells_set by simp
  have "fold ?f ?ts cf ! ?k = ?v j"
  proof (rule fold_hit [where ?t0.0 = "(i, j)" and I = "\<lambda>s. length s = length cf"])
    show "(i, j) \<in> set ?ts" by (rule mem)
  next
    fix t :: "int \<times> int" and s :: "real list" assume "length s = length cf"
    then show "length (?f t s) = length cf" by (cases t) simp
  next
    fix t :: "int \<times> int" and s :: "real list"
    assume t: "t \<in> set ?ts" and "length s = length cf" and q: "s ! ?k = ?v j"
    obtain i' j' where t': "t = (i', j')" by (cases t)
    have rng: "0 \<le> i'" "i' < ?nx" "0 \<le> j'" "j' < ?ny"
      using t t' unfolding cells_set by simp_all
    show "?f t s ! ?k = ?v j"
    proof (cases "nat (j' * ?nx + i') = ?k")
      case True
      then have "i' = i \<and> j' = j"
        using grid_nat_inj [of i' ?nx j' i j] rng assms(1-4) by simp
      then show ?thesis using t' \<open>length s = length cf\<close> k by simp
    next
      case False
      then show ?thesis using q t' by simp
    qed
  next
    fix s :: "real list" assume "length s = length cf"
    then show "?f (i, j) s ! ?k = ?v j" using k by simp
  next
    show "length cf = length cf" by simp
  qed
  then show ?thesis by (simp add: unfold)
qed

text \<open>
  The model \<^verbatim>\<open>two_layer\<close>, on a grid with less than \<open>2 ^ 31\<close> cells: the cell \<open>(i, j)\<close> has
  speed \<open>1.5 * c0\<close> from the middle row \<open>ny / 2\<close> on and \<open>c0\<close> before it; with \<open>c0 = 3000\<close>
  and \<open>ny = 100\<close> that is 4500 in the row 50 and 3000 in the row 49.
\<close>

theorem two_layer_field:
  assumes "p_model p = ''two_layer''"
    and "0 \<le> i" "i < p_nx p" "0 \<le> j" "j < p_ny p"
    and "p_nx p * p_ny p < 2 ^ 31"
    and "fillCField p cfield = Inr cf"
  shows "cf ! nat (j * p_nx p + i) = (if j \<ge> c_div (p_ny p) 2 then p_c0 p * 1.5 else p_c0 p)"
proof -
  have "0 \<le> p_nx p * p_ny p" using assms(2-5) by simp
  then have w: "wrap32 (p_nx p * p_ny p) = p_nx p * p_ny p"
    using assms(6) by (intro wrap32_id) simp_all
  obtain cf0 where r: "resize (p_nx p * p_ny p) cfield = Inr cf0"
    and cf: "cf = fill_two_layer p cf0"
    using assms(1,7) unfolding fillCField_def w by (auto split: sum.splits)
  have "length cf0 = nat (p_nx p * p_ny p)" using r by (rule resize_length)
  then show ?thesis unfolding cf by (rule fill_two_layer_nth [OF assms(2-5)])
qed

theorem two_layer_field_witness:
  "fillCField (default_Params\<lparr>p_nx := 2, p_ny := 100, p_model := ''two_layer''\<rparr>) []
     = Inr (fill_two_layer (default_Params\<lparr>p_nx := 2, p_ny := 100, p_model := ''two_layer''\<rparr>)
              (replicate 200 0))
   \<and> fill_two_layer (default_Params\<lparr>p_nx := 2, p_ny := 100, p_model := ''two_layer''\<rparr>)
         (replicate 200 0) ! nat (50 * 2 + 1) = 4500
   \<and> fill_two_layer (default_Params\<lparr>p_nx := 2, p_ny := 100, p_model := ''two_layer''\<rparr>)
         (replicate 200 0) ! nat (49 * 2 + 1) = 3000"
proof -
  let ?P = "default_Params\<lparr>p_nx := 2, p_ny := 100, p_model := ''two_layer''\<rparr>"
  have f: "fillCField ?P [] = Inr (fill_two_layer ?P (replicate 200 0))"
    by (simp add: fillCField_def resize_def wrap32_def)
  have c0: "p_c0 ?P = 3000" "c_div (p_ny ?P) 2 = 50"
    by (simp_all add: default_Params_def c_div_def)
  from two_layer_field [of ?P 1 50 "[]", OF _ _ _ _ _ _ f]
    two_layer_field [of ?P 1 49 "[]", OF _ _ _ _ _ _ f] f c0
  show ?thesis by simp
qed

end
